theory Spec2Isabelle
  imports Main "HOL-Library.Char_ord" "HOL-Library.List_Lexorder" "HOL-Library.Sublist"
    "HOL-Library.Multiset"
begin

section \<open>The catalog API types (package v1alpha1)\<close>

text \<open>
  Go strings are byte sequences, as \<^typ>\<open>string\<close> is. A pointer that may be nil is an
  \<^typ>\<open>'a option\<close>. A \<^verbatim>\<open>corev1.SecretKeySelector\<close> is only forwarded, never
  inspected: it is the pair of the secret's name and the key in it.
\<close>

type_synonym SecretKeySelector = "string \<times> string"

record RepositoryCredentials =
  rc_Username :: "SecretKeySelector option"
  rc_Password :: "SecretKeySelector option"
  rc_RegistryConfigFile :: "SecretKeySelector option"

record RepositorySettings =
  BaseURL :: string
  Credentials :: "RepositoryCredentials option"

record ChartMetadata =
  AppName :: string
  DisplayName :: string
  Description :: string
  DocumentationURL :: string
  SourceURL :: string
  Logo :: string
  LogoFormat :: string

record ChartVersion =
  cv_ChartVersion :: string
  cv_AppVersion :: string
  cv_RepositorySettings :: "RepositorySettings option"

record ChartConfig =
  ChartName :: string
  Metadata :: "ChartMetadata option"
  cc_RepositorySettings :: "RepositorySettings option"
  cc_DefaultValuesBlock :: string
  ChartVersions :: "ChartVersion list"

text \<open>
  \<^verbatim>\<open>HelmSpec.Charts\<close> is a slice whose nil state differs from its empty state:
  \<open>None\<close> is nil, \<open>Some []\<close> is the empty slice. \<^verbatim>\<open>IncludeDefaults\<close> is the
  boolean field that the reconciler, the validator and the tests read from the helm block.
\<close>

record HelmSpec =
  hs_RepositorySettings :: "RepositorySettings option"
  Charts :: "ChartConfig list option"
  IncludeDefaults :: bool

text \<open>
  Of the object metadata only the name and the annotations are read. Indexing a Go map
  at a missing key gives the empty string; \<open>mapIndex\<close> is that read.
\<close>

record ApplicationCatalog =
  ac_Name :: string
  ac_Annotations :: "string \<rightharpoonup> string"
  Helm :: "HelmSpec option"

definition LabelManagedByApplicationCatalog :: string where
  "LabelManagedByApplicationCatalog = ''applicationcatalog.k8c.io/managed-by''"

definition LabelApplicationCatalogName :: string where
  "LabelApplicationCatalogName = ''applicationcatalog.k8c.io/catalog-name''"

definition DefaultHelmRepository :: string where
  "DefaultHelmRepository = ''oci://quay.io/kubermatic-mirror/helm-charts''"

definition mapIndex :: "(string \<rightharpoonup> string) \<Rightarrow> string \<Rightarrow> string" where
  "mapIndex m k = (case m k of None \<Rightarrow> '''' | Some v \<Rightarrow> v)"

definition GetAppName :: "ChartConfig \<Rightarrow> string" where
  "GetAppName c =
     (case Metadata c of
        Some m \<Rightarrow> if AppName m \<noteq> '''' then AppName m else ChartName c
      | None \<Rightarrow> ChartName c)"

definition GetHelmCharts :: "ApplicationCatalog \<Rightarrow> ChartConfig list option" where
  "GetHelmCharts ac = (case Helm ac of None \<Rightarrow> None | Some h \<Rightarrow> Charts h)"

definition GetGlobalRepositorySettings :: "ApplicationCatalog \<Rightarrow> RepositorySettings option" where
  "GetGlobalRepositorySettings ac =
     (case Helm ac of None \<Rightarrow> None | Some h \<Rightarrow> hs_RepositorySettings h)"

subsection \<open>The precedence resolver\<close>

text \<open>
  Both resolvers test \<^verbatim>\<open>x != nil && x.BaseURL != ""\<close> at the version, the chart and
  the catalog, in this order, and answer from the first layer that passes.
\<close>

definition ResolveChartURL :: "ApplicationCatalog \<Rightarrow> ChartConfig \<Rightarrow> ChartVersion \<Rightarrow> string" where
  "ResolveChartURL ac chart version =
     (if cv_RepositorySettings version \<noteq> None
         \<and> BaseURL (the (cv_RepositorySettings version)) \<noteq> ''''
        then BaseURL (the (cv_RepositorySettings version))
      else if cc_RepositorySettings chart \<noteq> None
         \<and> BaseURL (the (cc_RepositorySettings chart)) \<noteq> ''''
        then BaseURL (the (cc_RepositorySettings chart))
      else (let global = GetGlobalRepositorySettings ac in
            if global \<noteq> None \<and> BaseURL (the global) \<noteq> ''''
              then BaseURL (the global)
            else DefaultHelmRepository))"

definition ResolveChartCredentials ::
  "ApplicationCatalog \<Rightarrow> ChartConfig \<Rightarrow> ChartVersion \<Rightarrow> RepositoryCredentials option" where
  "ResolveChartCredentials ac chart version =
     (if cv_RepositorySettings version \<noteq> None
         \<and> BaseURL (the (cv_RepositorySettings version)) \<noteq> ''''
        then Credentials (the (cv_RepositorySettings version))
      else if cc_RepositorySettings chart \<noteq> None
         \<and> BaseURL (the (cc_RepositorySettings chart)) \<noteq> ''''
        then Credentials (the (cc_RepositorySettings chart))
      else (let global = GetGlobalRepositorySettings ac in
            if global \<noteq> None \<and> BaseURL (the global) \<noteq> ''''
              then Credentials (the global)
            else None))"

text \<open>
  The specification's wording of the same rule, written without the functions above: the
  three layers in their strict order, the version's settings, the chart's and those of
  the catalog's helm block; of the settings that are present, the first with a non-empty
  base URL wins, and the answer is read off that one layer.
\<close>

definition layers ::
  "ApplicationCatalog \<Rightarrow> ChartConfig \<Rightarrow> ChartVersion \<Rightarrow> RepositorySettings option list" where
  "layers ac chart version =
     [cv_RepositorySettings version, cc_RepositorySettings chart,
      (case Helm ac of None \<Rightarrow> None | Some h \<Rightarrow> hs_RepositorySettings h)]"

definition winningLayer ::
  "ApplicationCatalog \<Rightarrow> ChartConfig \<Rightarrow> ChartVersion \<Rightarrow> RepositorySettings option" where
  "winningLayer ac chart version =
     find (\<lambda>l. BaseURL l \<noteq> '''')
       (concat (map (\<lambda>s. case s of None \<Rightarrow> [] | Some l \<Rightarrow> [l])
                  (layers ac chart version)))"

section \<open>The downstream resource (ApplicationDefinition)\<close>

text \<open>
  The downstream type belongs to the deployment engine's SDK. The model carries the
  object's name, labels and annotations and every field of its spec that the converter
  writes or the reconciler reads; the nested \<^verbatim>\<open>Template.Source.Helm\<close> pointer of
  a version is one optional field, and \<^verbatim>\<open>Selector.Datacenters\<close> is a slice whose
  nil state is \<open>None\<close>. A Go map of labels is a partial function; a nil map reads (and
  deletes) like the empty one.
\<close>

record HelmCredentials =
  hc_Username :: "SecretKeySelector option"
  hc_Password :: "SecretKeySelector option"
  hc_RegistryConfigFile :: "SecretKeySelector option"

record HelmSource =
  src_ChartName :: string
  src_ChartVersion :: string
  URL :: string
  src_Credentials :: "HelmCredentials option"

record ApplicationVersion =
  Version :: string
  Template_Source_Helm :: "HelmSource option"

record ApplicationDefinitionSpec =
  Method :: string
  spec_DisplayName :: string
  spec_Description :: string
  spec_DocumentationURL :: string
  spec_SourceURL :: string
  spec_Logo :: string
  spec_LogoFormat :: string
  DefaultValuesBlock :: string
  Enforced :: bool
  Default :: bool
  Selector_Datacenters :: "string list option"
  Versions :: "ApplicationVersion list"

record ApplicationDefinition =
  Name :: string
  Labels :: "string \<rightharpoonup> string"
  Annotations :: "string \<rightharpoonup> string"
  Spec :: ApplicationDefinitionSpec

definition HelmTemplateMethod :: string where
  "HelmTemplateMethod = ''helm''"

subsection \<open>The converter\<close>

definition convertCredentials :: "RepositoryCredentials \<Rightarrow> HelmCredentials" where
  "convertCredentials creds =
     \<lparr>hc_Username = rc_Username creds, hc_Password = rc_Password creds,
      hc_RegistryConfigFile = rc_RegistryConfigFile creds\<rparr>"

definition convertVersion ::
  "ApplicationCatalog \<Rightarrow> ChartConfig \<Rightarrow> ChartVersion \<Rightarrow> ApplicationVersion" where
  "convertVersion catalog chart chartVersion =
     \<lparr>Version = cv_AppVersion chartVersion,
      Template_Source_Helm = Some
        \<lparr>src_ChartName = ChartName chart,
         src_ChartVersion = cv_ChartVersion chartVersion,
         URL = ResolveChartURL catalog chart chartVersion,
         src_Credentials =
           (case ResolveChartCredentials catalog chart chartVersion of
              None \<Rightarrow> None
            | Some creds \<Rightarrow> Some (convertCredentials creds))\<rparr>\<rparr>"

definition convertVersions :: "ApplicationCatalog \<Rightarrow> ChartConfig \<Rightarrow> ApplicationVersion list" where
  "convertVersions catalog chart = map (convertVersion catalog chart) (ChartVersions chart)"

definition noMetadata :: ChartMetadata where
  "noMetadata =
     \<lparr>AppName = [], DisplayName = [], Description = [], DocumentationURL = [],
      SourceURL = [], Logo = [], LogoFormat = []\<rparr>"

definition convertChartToApplicationDefinition ::
  "ApplicationCatalog \<Rightarrow> ChartConfig \<Rightarrow> ApplicationDefinition" where
  "convertChartToApplicationDefinition catalog chart =
     (let md = (case Metadata chart of Some m \<Rightarrow> m | None \<Rightarrow> noMetadata)
      in \<lparr>Name = GetAppName chart,
          Labels = [LabelManagedByApplicationCatalog \<mapsto> ''true'',
                    LabelApplicationCatalogName \<mapsto> ac_Name catalog],
          Annotations = Map.empty,
          Spec = \<lparr>Method = HelmTemplateMethod,
                   spec_DisplayName = DisplayName md,
                   spec_Description = Description md,
                   spec_DocumentationURL = DocumentationURL md,
                   spec_SourceURL = SourceURL md,
                   spec_Logo = Logo md,
                   spec_LogoFormat = LogoFormat md,
                   DefaultValuesBlock = cc_DefaultValuesBlock chart,
                   Enforced = False,
                   Default = False,
                   Selector_Datacenters = None,
                   Versions = convertVersions catalog chart\<rparr>\<rparr>)"

section \<open>The cluster and the client\<close>

text \<open>
  The cluster holds the downstream resources; the API server keeps their names unique
  (\<open>wf_store\<close>). Every write the reconciler issues is logged with the object as it was
  read and as it was sent, so that an empty patch (both equal) can be told from one that
  changes the object. The reconciler is the only writer between its read and its patch,
  so the merge patch computed against the object as read leaves the object as sent.
  \<^verbatim>\<open>Get\<close> answers \<open>None\<close> for not-found.
\<close>

datatype error =
    NotFound string
  | AlreadyExists string
  | ClientFailure string
  | errRequeueAfter10Secs
  | Wrapped string error
  | Aggregate "error list"

datatype wevent =
    Created ApplicationDefinition
  | Patched ApplicationDefinition ApplicationDefinition

record cluster =
  objects :: "ApplicationDefinition list"
  writes :: "wevent list"

definition wf_store :: "ApplicationDefinition list \<Rightarrow> bool" where
  "wf_store s = distinct (map Name s)"

definition Get :: "string \<Rightarrow> cluster \<Rightarrow> ApplicationDefinition option" where
  "Get name cl = find (\<lambda>a. Name a = name) (objects cl)"

definition Create :: "ApplicationDefinition \<Rightarrow> cluster \<Rightarrow> error option \<times> cluster" where
  "Create obj cl =
     (case Get (Name obj) cl of
        Some _ \<Rightarrow> (Some (AlreadyExists (Name obj)), cl)
      | None \<Rightarrow> (None, cl\<lparr>objects := objects cl @ [obj], writes := writes cl @ [Created obj]\<rparr>))"

definition ListByLabel :: "string \<Rightarrow> string \<Rightarrow> cluster \<Rightarrow> ApplicationDefinition list" where
  "ListByLabel key val cl = filter (\<lambda>a. Labels a key = Some val) (objects cl)"

text \<open>
  \<^verbatim>\<open>kubernetes.PatchObject(ctx, client, obj, modify)\<close>: \<open>old\<close> is the deep copy taken
  before \<^verbatim>\<open>modify\<close> runs and \<open>new\<close> is the object after it.
\<close>

definition PatchObject ::
  "ApplicationDefinition \<Rightarrow> ApplicationDefinition \<Rightarrow> cluster \<Rightarrow> error option \<times> cluster" where
  "PatchObject old new cl =
     (case Get (Name old) cl of
        None \<Rightarrow> (Some (NotFound (Name old)), cl)
      | Some _ \<Rightarrow>
          (None, cl\<lparr>objects := map (\<lambda>a. if Name a = Name old then new else a) (objects cl),
                     writes := writes cl @ [Patched old new]\<rparr>))"

fun effective :: "wevent \<Rightarrow> bool" where
  "effective (Created _) = True"
| "effective (Patched old new) = (old \<noteq> new)"

text \<open>
  Modelled from the spec: \<^verbatim>\<open>kubernetes.EnsureLabels\<close> and
  \<^verbatim>\<open>kubernetes.EnsureAnnotations\<close> are not among the sources. The reconciler uses
  them to put the ownership labels of the desired object on the existing one ("re-adding
  an entry with the same identity restores both labels"): every desired key is set,
  every other key is kept.
\<close>

definition EnsureLabels :: "(string \<rightharpoonup> string) \<Rightarrow> (string \<rightharpoonup> string) \<Rightarrow> (string \<rightharpoonup> string)" where
  "EnsureLabels existing toEnsure = existing ++ toEnsure"

definition EnsureAnnotations :: "(string \<rightharpoonup> string) \<Rightarrow> (string \<rightharpoonup> string) \<Rightarrow> (string \<rightharpoonup> string)" where
  "EnsureAnnotations existing toEnsure = existing ++ toEnsure"

section \<open>The reconciler\<close>

subsection \<open>Merging versions\<close>

text \<open>
  \<^verbatim>\<open>for i, v := range existing { existingIndex[v.Version] = i }\<close>: a later entry with
  the same key overwrites the index of an earlier one.
\<close>

fun indexFrom :: "nat \<Rightarrow> ApplicationVersion list \<Rightarrow> (string \<rightharpoonup> nat) \<Rightarrow> (string \<rightharpoonup> nat)" where
  "indexFrom i [] m = m"
| "indexFrom i (v # vs) m = indexFrom (Suc i) vs (m(Version v \<mapsto> i))"

definition existingIndex :: "ApplicationVersion list \<Rightarrow> (string \<rightharpoonup> nat)" where
  "existingIndex existing = indexFrom 0 existing Map.empty"

text \<open>
  Position \<open>i\<close> of a version list is the last one that carries its key: the position
  \<^verbatim>\<open>existingIndex\<close> holds for that key.
\<close>

definition lastOfKey :: "ApplicationVersion list \<Rightarrow> nat \<Rightarrow> bool" where
  "lastOfKey e i =
     (i < length e \<and> (\<forall>j. i < j \<and> j < length e \<longrightarrow> Version (e ! j) \<noteq> Version (e ! i)))"

fun mergeLoop ::
  "(string \<rightharpoonup> nat) \<Rightarrow> ApplicationVersion list \<Rightarrow> ApplicationVersion list \<Rightarrow> ApplicationVersion list" where
  "mergeLoop idx result [] = result"
| "mergeLoop idx result (d # ds) =
     (case idx (Version d) of
        Some i \<Rightarrow> mergeLoop idx (result[i := d]) ds
      | None \<Rightarrow> mergeLoop idx (result @ [d]) ds)"

definition mergeVersions ::
  "ApplicationVersion list \<Rightarrow> ApplicationVersion list \<Rightarrow> ApplicationVersion list" where
  "mergeVersions existing desired =
     (if length existing = 0 then desired
      else if length desired = 0 then existing
      else mergeLoop (existingIndex existing) existing desired)"

text \<open>
  \<^verbatim>\<open>sort.Slice\<close> with the comparison \<^verbatim>\<open>Versions[i].Version < Versions[j].Version\<close>,
  Go's bytewise lexicographic order on strings. \<^verbatim>\<open>sort.Slice\<close> returns the entries in
  ascending order of the key. On a list of at most 12 entries it is an insertion sort,
  which keeps entries of one key in their order, and a list without a repeated key has
  one ascending arrangement only: on these lists the model, the stable sort, is what Go
  returns. On a longer list with a repeated key Go may arrange the entries of that key
  in another order than the model does. What is proved below of the stored list is
  therefore either that it is ascending and holds the entries of the merge, which is so
  of any arrangement Go returns, or it is about lists on which the model is exact.
\<close>

definition sortVersions :: "ApplicationVersion list \<Rightarrow> ApplicationVersion list" where
  "sortVersions vs = sort_key Version vs"

subsection \<open>Creating and updating a downstream resource\<close>

definition isSystemApplication :: "ApplicationDefinition \<Rightarrow> bool" where
  "isSystemApplication appDef = (Labels appDef ''apps.kubermatic.k8c.io/managed-by'' \<noteq> None)"

text \<open>
  The body of the \<^verbatim>\<open>modify\<close> closure of \<^verbatim>\<open>updateApplicationDefinition\<close>: the
  promoted fields go into the desired spec, statement by statement, and the desired spec
  then replaces the existing one.
\<close>

definition promotedSpec ::
  "ApplicationDefinitionSpec \<Rightarrow> ApplicationDefinitionSpec \<Rightarrow> ApplicationDefinitionSpec" where
  "promotedSpec existing desired =
     (let d1 = (if Enforced existing then desired\<lparr>Enforced := True\<rparr> else desired);
          d2 = (if Default existing then d1\<lparr>Default := True\<rparr> else d1);
          d3 = (if Selector_Datacenters existing \<noteq> None
                then d2\<lparr>Selector_Datacenters := Selector_Datacenters existing\<rparr> else d2);
          d4 = (if DefaultValuesBlock existing \<noteq> [] \<and> DefaultValuesBlock existing \<noteq> ''{}''
                then d3\<lparr>DefaultValuesBlock := DefaultValuesBlock existing\<rparr> else d3);
          d5 = d4\<lparr>Versions := mergeVersions (Versions existing) (Versions d4)\<rparr>
      in d5\<lparr>Versions := sortVersions (Versions d5)\<rparr>)"

definition modified :: "ApplicationDefinition \<Rightarrow> ApplicationDefinition \<Rightarrow> ApplicationDefinition" where
  "modified existing desired =
     existing\<lparr>Labels := EnsureLabels (Labels existing) (Labels desired),
              Annotations := EnsureAnnotations (Annotations existing) (Annotations desired),
              Spec := promotedSpec (Spec existing) (Spec desired)\<rparr>"

definition updateApplicationDefinition ::
  "ApplicationDefinition \<Rightarrow> ApplicationDefinition \<Rightarrow> cluster \<Rightarrow> error option \<times> cluster" where
  "updateApplicationDefinition existing desired cl =
     PatchObject existing (modified existing desired) cl"

definition reconcileApplicationDefinition ::
  "ApplicationDefinition \<Rightarrow> cluster \<Rightarrow> error option \<times> cluster" where
  "reconcileApplicationDefinition desired cl =
     (case Get (Name desired) cl of
        None \<Rightarrow> Create desired cl
      | Some existing \<Rightarrow>
          if isSystemApplication existing then (None, cl)
          else updateApplicationDefinition existing desired cl)"

subsection \<open>Unmanaging orphans\<close>

definition strippedLabels :: "ApplicationDefinition \<Rightarrow> ApplicationDefinition" where
  "strippedLabels appDef =
     appDef\<lparr>Labels := (Labels appDef)(LabelManagedByApplicationCatalog := None,
                                       LabelApplicationCatalogName := None)\<rparr>"

definition removeManagedLabels :: "ApplicationDefinition \<Rightarrow> cluster \<Rightarrow> error option \<times> cluster" where
  "removeManagedLabels appDef cl = PatchObject appDef (strippedLabels appDef) cl"

definition NewAggregate :: "error list \<Rightarrow> error option" where
  "NewAggregate errs = (if errs = [] then None else Some (Aggregate errs))"

text \<open>
  \<^verbatim>\<open>generatedApps\<close> is a \<^verbatim>\<open>map[string]bool\<close> holding only \<^verbatim>\<open>true\<close>: the
  names put into it, or \<open>None\<close> for the nil map that \<^verbatim>\<open>handleDeletion\<close> passes.
\<close>

definition isOrphan :: "string list option \<Rightarrow> ApplicationDefinition \<Rightarrow> bool" where
  "isOrphan generatedApps appDef =
     (case generatedApps of None \<Rightarrow> True | Some names \<Rightarrow> Name appDef \<notin> set names)"

fun unmanageLoop ::
  "string list option \<Rightarrow> ApplicationDefinition list \<Rightarrow> error list \<Rightarrow> cluster \<Rightarrow> error list \<times> cluster" where
  "unmanageLoop generatedApps [] errs cl = (errs, cl)"
| "unmanageLoop generatedApps (appDef # items) errs cl =
     (if isOrphan generatedApps appDef then
        (case removeManagedLabels appDef cl of
           (Some err, cl') \<Rightarrow>
             unmanageLoop generatedApps items
               (errs @ [Wrapped (''failed to unmanage '' @ Name appDef) err]) cl'
         | (None, cl') \<Rightarrow> unmanageLoop generatedApps items errs cl')
      else unmanageLoop generatedApps items errs cl)"

definition unmanageOrphans :: "string \<Rightarrow> string list option \<Rightarrow> cluster \<Rightarrow> error option \<times> cluster" where
  "unmanageOrphans catalogName generatedApps cl =
     (case unmanageLoop generatedApps (ListByLabel LabelApplicationCatalogName catalogName cl) [] cl of
        (errs, cl') \<Rightarrow> (NewAggregate errs, cl'))"

definition handleDeletion :: "string \<Rightarrow> cluster \<Rightarrow> error option \<times> cluster" where
  "handleDeletion catalogName cl = unmanageOrphans catalogName None cl"

subsection \<open>One reconciliation pass\<close>

fun chartLoop ::
  "ApplicationCatalog \<Rightarrow> ChartConfig list \<Rightarrow> error list \<Rightarrow> string list \<Rightarrow> cluster
     \<Rightarrow> error list \<times> string list \<times> cluster" where
  "chartLoop catalog [] errs generatedApps cl = (errs, generatedApps, cl)"
| "chartLoop catalog (chart # charts) errs generatedApps cl =
     (let desired = convertChartToApplicationDefinition catalog chart in
      case reconcileApplicationDefinition desired cl of
        (Some err, cl') \<Rightarrow>
          chartLoop catalog charts (errs @ [Wrapped (''chart '' @ ChartName chart) err])
            (generatedApps @ [Name desired]) cl'
      | (None, cl') \<Rightarrow> chartLoop catalog charts errs (generatedApps @ [Name desired]) cl')"

text \<open>
  \<open>got\<close> is what reading the catalog named \<open>reqName\<close> returned: the catalog, a not-found
  error, or another error. A nil chart list with \<^verbatim>\<open>includeDefaults\<close> set asks for a
  requeue; any other nil list is processed as the empty list.
\<close>

definition reconcile :: "error + ApplicationCatalog \<Rightarrow> string \<Rightarrow> cluster \<Rightarrow> error option \<times> cluster" where
  "reconcile got reqName cl =
     (case got of
        Inl (NotFound _) \<Rightarrow> handleDeletion reqName cl
      | Inl err \<Rightarrow> (Some (Wrapped ''failed to get ApplicationCatalog'' err), cl)
      | Inr catalog \<Rightarrow>
          (let charts = GetHelmCharts catalog in
           if charts = None \<and> Helm catalog \<noteq> None \<and> IncludeDefaults (the (Helm catalog))
           then (Some errRequeueAfter10Secs, cl)
           else
             (case chartLoop catalog (case charts of None \<Rightarrow> [] | Some cs \<Rightarrow> cs) [] [] cl of
                (errs, generatedApps, cl1) \<Rightarrow>
                  (case unmanageOrphans (ac_Name catalog) (Some generatedApps) cl1 of
                     (None, cl2) \<Rightarrow> (NewAggregate errs, cl2)
                   | (Some err, cl2) \<Rightarrow> (NewAggregate (errs @ [err]), cl2)))))"

text \<open>
  The cluster after the reconciler has handled one chart, the charts a reconciliation pass
  walks through, and a chart whose versions are listed in ascending order of their
  application-version key.
\<close>

definition applyChart :: "ApplicationCatalog \<Rightarrow> cluster \<Rightarrow> ChartConfig \<Rightarrow> cluster" where
  "applyChart catalog cl chart =
     snd (reconcileApplicationDefinition (convertChartToApplicationDefinition catalog chart) cl)"

definition chartsOf :: "ApplicationCatalog \<Rightarrow> ChartConfig list" where
  "chartsOf catalog = (case GetHelmCharts catalog of None \<Rightarrow> [] | Some cs \<Rightarrow> cs)"

definition versionsAscending :: "ChartConfig \<Rightarrow> bool" where
  "versionsAscending chart = sorted (map cv_AppVersion (ChartVersions chart))"

text \<open>
  A downstream resource on which the update for \<open>desired\<close> changes nothing: the reconciler
  skips it, or the patch it sends leaves it as it is.
\<close>

definition settled :: "ApplicationDefinition \<Rightarrow> ApplicationDefinition \<Rightarrow> bool" where
  "settled desired appDef = (isSystemApplication appDef \<or> modified appDef desired = appDef)"

section \<open>The filter annotation and the built-in defaults\<close>

text \<open>
  \<^verbatim>\<open>strings.Split(s, ",")\<close> cuts at every separator and keeps empty pieces, so the
  empty string gives one empty piece. \<^verbatim>\<open>strings.TrimSpace\<close> is modelled on the
  ASCII white space bytes.
\<close>

fun splitOn :: "char \<Rightarrow> string \<Rightarrow> string list" where
  "splitOn sep [] = [] # []"
| "splitOn sep (c # cs) =
     (if c = sep then [] # splitOn sep cs
      else (case splitOn sep cs of
              w # ws \<Rightarrow> (c # w) # ws
            | [] \<Rightarrow> [c] # []))"

definition isSpace :: "char \<Rightarrow> bool" where
  "isSpace c = (c \<in> set [CHR 0x09, CHR 0x0A, CHR 0x0B, CHR 0x0C, CHR 0x0D, CHR 0x20])"

definition TrimSpace :: "string \<Rightarrow> string" where
  "TrimSpace s = rev (dropWhile isSpace (rev (dropWhile isSpace s)))"

definition IncludeAnnotation :: string where
  "IncludeAnnotation = ''defaultcatalog.k8c.io/include''"

text \<open>
  Modelled from the spec: the package \<^verbatim>\<open>internal/pkg/defaulting\<close> (the functions
  \<^verbatim>\<open>GetDefaultCharts\<close>, \<^verbatim>\<open>GetDefaultChartNames\<close>, \<^verbatim>\<open>ValidateIncludeAnnotation\<close>
  and \<^verbatim>\<open>DefaultApplicationCatalog\<close>) is not among the sources; only its tests and its
  callers are. The built-in default set is the parameter \<open>defaults\<close> of everything below.
  The annotation is a comma-separated list of identifiers, each trimmed of white space;
  the empty annotation is no filter; an identifier is valid when it names a built-in
  default.
\<close>

definition GetDefaultChartNames :: "ChartConfig list \<Rightarrow> string list" where
  "GetDefaultChartNames defaults = map ChartName defaults"

definition includeList :: "string \<Rightarrow> string list" where
  "includeList annotation = map TrimSpace (splitOn (CHR '','') annotation)"

definition ValidateIncludeAnnotation :: "ChartConfig list \<Rightarrow> string \<Rightarrow> string list" where
  "ValidateIncludeAnnotation defaults annotation =
     (if annotation = [] then []
      else filter (\<lambda>name. name \<notin> set (GetDefaultChartNames defaults))
             (includeList annotation))"

section \<open>The defaulting engine\<close>

text \<open>
  Modelled from the spec: \<^verbatim>\<open>defaulting.DefaultApplicationCatalog\<close> is not among the
  sources (see above). What follows is its effect on a catalog whose helm block has
  \<^verbatim>\<open>includeDefaults\<close> set, in the words of the behaviour table of the specification:
  the built-in defaults are filtered by the annotation (an identifier that names no
  default selects nothing) and sorted by chart name; an absent or empty chart list is
  replaced by them; for a populated list the engine starts from them and overwrites with
  every user-declared entry, by identity (the override app name if present and non-empty,
  else the chart name) and as a whole struct, and sorts the final list by chart name. A
  user entry collides when a default has its identity: it then takes the place of the
  entry of that identity, a later user entry of the identity taking the place of an
  earlier one; a user entry that collides with no default is added. The rows of the table
  for a catalog without \<^verbatim>\<open>includeDefaults\<close> are not modelled.
\<close>

definition filterDefaultsByName :: "ChartConfig list \<Rightarrow> string \<Rightarrow> ChartConfig list" where
  "filterDefaultsByName defaults annotation =
     (if annotation = [] then defaults
      else filter (\<lambda>chart. ChartName chart \<in> set (includeList annotation)) defaults)"

definition sortCharts :: "ChartConfig list \<Rightarrow> ChartConfig list" where
  "sortCharts charts = sort_key ChartName charts"

definition overwriteChart :: "string list \<Rightarrow> ChartConfig \<Rightarrow> ChartConfig list \<Rightarrow> ChartConfig list" where
  "overwriteChart defaultIdentities u acc =
     (if GetAppName u \<in> set defaultIdentities
      then map (\<lambda>x. if GetAppName x = GetAppName u then u else x) acc
      else acc @ [u])"

definition mergeCharts :: "ChartConfig list \<Rightarrow> ChartConfig list \<Rightarrow> ChartConfig list" where
  "mergeCharts userCharts defaults =
     sortCharts (foldl (\<lambda>acc u. overwriteChart (map GetAppName defaults) u acc) defaults userCharts)"

definition syncedCharts :: "ChartConfig list \<Rightarrow> string \<Rightarrow> ChartConfig list option \<Rightarrow> ChartConfig list" where
  "syncedCharts defaults annotation charts =
     (let filtered = sortCharts (filterDefaultsByName defaults annotation) in
      case charts of
        None \<Rightarrow> filtered
      | Some userCharts \<Rightarrow> if userCharts = [] then filtered else mergeCharts userCharts filtered)"

definition syncDefaults :: "ChartConfig list \<Rightarrow> ApplicationCatalog \<Rightarrow> ApplicationCatalog" where
  "syncDefaults defaults catalog =
     (case Helm catalog of
        None \<Rightarrow> catalog
      | Some h \<Rightarrow>
          catalog\<lparr>Helm := Some (h\<lparr>Charts :=
            Some (syncedCharts defaults (mapIndex (ac_Annotations catalog) IncludeAnnotation)
                    (Charts h))\<rparr>)\<rparr>)"

text \<open>
  The user's entry of an identity: the last one of that identity in the user's list.
\<close>

definition userEntry :: "ChartConfig list \<Rightarrow> string \<Rightarrow> ChartConfig" where
  "userEntry userCharts identity = last (filter (\<lambda>u. GetAppName u = identity) userCharts)"

section \<open>The validating webhook\<close>

text \<open>
  An admission operation is a string. A response is an allow, a denial, an error with its
  HTTP status, or (from the mutating webhook) the patch between the raw object and the
  marshalled mutated one.
\<close>

definition admissionv1_Create :: string where "admissionv1_Create = ''CREATE''"
definition admissionv1_Update :: string where "admissionv1_Update = ''UPDATE''"
definition admissionv1_Delete :: string where "admissionv1_Delete = ''DELETE''"

record 'raw Request =
  Operation :: string
  Object_Raw :: 'raw

datatype 'raw Response =
    Allowed string
  | Denied string
  | Errored nat error
  | PatchResponseFromRaw 'raw 'raw
  | NilPointerPanic

record ConflictInfo =
  AppDefName :: string
  OwnerCatalog :: string

text \<open>
  The verb \<^verbatim>\<open>%q\<close> of \<^verbatim>\<open>fmt\<close> on a string, which is \<^verbatim>\<open>strconv.Quote\<close>: the
  string between double quotes, a quote or a backslash preceded by a backslash, a
  printable ASCII byte copied, the control bytes with a letter escape written so, and any
  other byte written as \<^verbatim>\<open>\x\<close> and two lower-case hexadecimal digits. This is exact
  on ASCII strings. A byte above 0x7F is written here as Go writes a byte that is part of
  no UTF-8 encoding; Go copies a printable rune of several bytes and writes an
  unprintable one as \<^verbatim>\<open>\u\<close> or \<^verbatim>\<open>\U\<close>, which needs the Unicode tables and is
  left out. \<^verbatim>\<open>%v\<close> on a slice of strings follows.
\<close>

definition lowerhex :: "nat \<Rightarrow> char" where
  "lowerhex n = ''0123456789abcdef'' ! (n mod 16)"

definition appendEscapedRune :: "char \<Rightarrow> string" where
  "appendEscapedRune c =
     (let r = (of_char c :: nat) in
      if c = CHR 0x22 \<or> c = CHR 0x5C then [CHR 0x5C, c]
      else if 32 \<le> r \<and> r < 127 then [c]
      else if c = CHR 0x07 then [CHR 0x5C, CHR ''a'']
      else if c = CHR 0x08 then [CHR 0x5C, CHR ''b'']
      else if c = CHR 0x0C then [CHR 0x5C, CHR ''f'']
      else if c = CHR 0x0A then [CHR 0x5C, CHR ''n'']
      else if c = CHR 0x0D then [CHR 0x5C, CHR ''r'']
      else if c = CHR 0x09 then [CHR 0x5C, CHR ''t'']
      else if c = CHR 0x0B then [CHR 0x5C, CHR ''v'']
      else [CHR 0x5C, CHR ''x'', lowerhex (r div 16), lowerhex r])"

definition quoted :: "string \<Rightarrow> string" where
  "quoted s = [CHR 0x22] @ concat (map appendEscapedRune s) @ [CHR 0x22]"

fun joinWith :: "string \<Rightarrow> string list \<Rightarrow> string" where
  "joinWith sep [] = []"
| "joinWith sep [x] = x"
| "joinWith sep (x # y # ys) = x @ sep @ joinWith sep (y # ys)"

definition fmtSlice :: "string list \<Rightarrow> string" where
  "fmtSlice xs = ''['' @ joinWith '' '' xs @ '']''"

text \<open>
  The first loop of \<^verbatim>\<open>detectConflicts\<close>. \<open>appNames\<close> is the Go map from identity
  to the chart name that claimed it first; \<open>keys\<close> lists its keys in the order they were
  added. Go ranges over a map in an unspecified order: the second loop of the model
  takes the order of \<open>keys\<close>, and what is proved of its result does not depend on it.
\<close>

fun duplicateLoop ::
  "ChartConfig list \<Rightarrow> (string \<rightharpoonup> string) \<Rightarrow> string list \<Rightarrow> ConflictInfo list
     \<Rightarrow> (string \<rightharpoonup> string) \<times> string list \<times> ConflictInfo list" where
  "duplicateLoop [] appNames keys conflicts = (appNames, keys, conflicts)"
| "duplicateLoop (chart # charts) appNames keys conflicts =
     (let appName = GetAppName chart in
      case appNames appName of
        Some existingChart \<Rightarrow>
          duplicateLoop charts appNames keys
            (conflicts @
             [\<lparr>AppDefName = appName,
               OwnerCatalog = ''this catalog (duplicate: charts '' @ quoted existingChart @ '' and ''
                 @ quoted (ChartName chart) @ '' resolve to same appName)''\<rparr>])
      | None \<Rightarrow>
          duplicateLoop charts (appNames(appName \<mapsto> ChartName chart)) (keys @ [appName]) conflicts)"

fun existingLoop ::
  "(string \<rightharpoonup> string) \<Rightarrow> ApplicationDefinition list \<Rightarrow> (string \<rightharpoonup> ApplicationDefinition)
     \<Rightarrow> (string \<rightharpoonup> ApplicationDefinition)" where
  "existingLoop appNames [] existing = existing"
| "existingLoop appNames (appDef # items) existing =
     (if appNames (Name appDef) \<noteq> None
      then existingLoop appNames items (existing(Name appDef \<mapsto> appDef))
      else existingLoop appNames items existing)"

fun externalLoop ::
  "string \<Rightarrow> (string \<rightharpoonup> ApplicationDefinition) \<Rightarrow> string list \<Rightarrow> ConflictInfo list
     \<Rightarrow> ConflictInfo list" where
  "externalLoop catalogName existing [] conflicts = conflicts"
| "externalLoop catalogName existing (appName # keys) conflicts =
     (case existing appName of
        None \<Rightarrow> externalLoop catalogName existing keys conflicts
      | Some appDef \<Rightarrow>
          (let owner = mapIndex (Labels appDef) LabelApplicationCatalogName in
           if owner = [] \<or> owner = catalogName
           then externalLoop catalogName existing keys conflicts
           else externalLoop catalogName existing keys
                  (conflicts @ [\<lparr>AppDefName = appName, OwnerCatalog = owner\<rparr>])))"

text \<open>
  \<open>cluster\<close> is what the validator's client sees: the downstream resources, or the error
  with which listing them fails.
\<close>

definition clientList ::
  "error + ApplicationDefinition list \<Rightarrow> string \<Rightarrow> string \<Rightarrow> error + ApplicationDefinition list" where
  "clientList cluster key val =
     (case cluster of
        Inl err \<Rightarrow> Inl err
      | Inr objs \<Rightarrow> Inr (filter (\<lambda>a. Labels a key = Some val) objs))"

definition detectConflicts ::
  "error + ApplicationDefinition list \<Rightarrow> ApplicationCatalog \<Rightarrow> error + ConflictInfo list" where
  "detectConflicts cluster catalog =
     (let charts = (case GetHelmCharts catalog of None \<Rightarrow> [] | Some cs \<Rightarrow> cs) in
      if length charts = 0 then Inr []
      else
        (case duplicateLoop charts Map.empty [] [] of
           (appNames, keys, conflicts) \<Rightarrow>
             (case clientList cluster LabelManagedByApplicationCatalog ''true'' of
                Inl err \<Rightarrow> Inl (Wrapped ''failed to list ApplicationDefinitions'' err)
              | Inr items \<Rightarrow>
                  Inr (externalLoop (ac_Name catalog)
                         (existingLoop appNames items Map.empty) keys conflicts))))"

definition conflictLine :: "ConflictInfo \<Rightarrow> string" where
  "conflictLine c =
     ''  - ApplicationDefinition '' @ quoted (AppDefName c) @ '' is already managed by catalog ''
       @ quoted (OwnerCatalog c) @ [CHR 0x0A]"

definition formatConflictMessage :: "ConflictInfo list \<Rightarrow> string" where
  "formatConflictMessage conflicts =
     (if length conflicts = 0 then []
      else ''ApplicationCatalog conflicts detected:'' @ [CHR 0x0A]
        @ concat (map conflictLine conflicts)
        @ [CHR 0x0A] @ ''To resolve this conflict, either:'' @ [CHR 0x0A]
        @ ''  1. Remove the conflicting chart from this catalog'' @ [CHR 0x0A]
        @ ''  2. Use a different appName in metadata.appName for the chart'' @ [CHR 0x0A]
        @ ''  3. Delete the other catalog or remove the chart from it first'')"

definition invalidAnnotationMessage :: "string list \<Rightarrow> string list \<Rightarrow> string" where
  "invalidAnnotationMessage invalidNames validNames =
     ''invalid chart names in annotation defaultcatalog.k8c.io/include: '' @ fmtSlice invalidNames
       @ ''. Valid names are: '' @ fmtSlice validNames"

text \<open>
  \<open>decoded\<close> is the result of decoding the request's object. The annotation is checked
  only when the helm block is present and \<^verbatim>\<open>includeDefaults\<close> is set.
\<close>

definition handleValidation ::
  "ChartConfig list \<Rightarrow> error + ApplicationDefinition list \<Rightarrow> error + ApplicationCatalog
     \<Rightarrow> 'raw Response" where
  "handleValidation defaults cluster decoded =
     (case decoded of
        Inl err \<Rightarrow> Errored 400 (Wrapped ''failed to decode request'' err)
      | Inr catalog \<Rightarrow>
          (let invalidNames =
                 (if Helm catalog \<noteq> None \<and> IncludeDefaults (the (Helm catalog))
                  then ValidateIncludeAnnotation defaults
                         (mapIndex (ac_Annotations catalog) IncludeAnnotation)
                  else [])
           in if length invalidNames > 0
              then Denied (invalidAnnotationMessage invalidNames (GetDefaultChartNames defaults))
              else
                (case detectConflicts cluster catalog of
                   Inl err \<Rightarrow> Errored 500 (Wrapped ''failed to validate catalog'' err)
                 | Inr conflicts \<Rightarrow>
                     if length conflicts > 0 then Denied (formatConflictMessage conflicts)
                     else Allowed ''no conflicts detected'')))"

definition validation_Handle ::
  "ChartConfig list \<Rightarrow> error + ApplicationDefinition list \<Rightarrow> ('raw \<Rightarrow> error + ApplicationCatalog)
     \<Rightarrow> 'raw Request \<Rightarrow> 'raw Response" where
  "validation_Handle defaults cluster decode req =
     (if Operation req = admissionv1_Create \<or> Operation req = admissionv1_Update
        then handleValidation defaults cluster (decode (Object_Raw req))
      else if Operation req = admissionv1_Delete
        then Allowed ''delete operations do not require validation''
      else Allowed (quoted (Operation req) @ '' operations do not require validation''))"

text \<open>
  The specification's wording of a cross-catalog conflict: a downstream resource whose
  name is an identity the catalog would produce, which carries the managed-by label, and
  whose owning-catalog label is non-empty and differs from the catalog's own name.
\<close>

definition identities :: "ApplicationCatalog \<Rightarrow> string list" where
  "identities catalog =
     map GetAppName (case GetHelmCharts catalog of None \<Rightarrow> [] | Some cs \<Rightarrow> cs)"

definition ownerOf :: "ApplicationDefinition \<Rightarrow> string" where
  "ownerOf appDef = mapIndex (Labels appDef) LabelApplicationCatalogName"

definition conflictsWith :: "ApplicationCatalog \<Rightarrow> ApplicationDefinition \<Rightarrow> bool" where
  "conflictsWith catalog appDef =
     (Name appDef \<in> set (identities catalog)
      \<and> Labels appDef LabelManagedByApplicationCatalog = Some ''true''
      \<and> ownerOf appDef \<noteq> [] \<and> ownerOf appDef \<noteq> ac_Name catalog)"

definition annotationAccepted :: "ChartConfig list \<Rightarrow> ApplicationCatalog \<Rightarrow> bool" where
  "annotationAccepted defaults catalog =
     (if Helm catalog \<noteq> None \<and> IncludeDefaults (the (Helm catalog))
      then ValidateIncludeAnnotation defaults (mapIndex (ac_Annotations catalog) IncludeAnnotation) = []
      else True)"

section \<open>The mutating webhook\<close>

text \<open>
  \<open>defaulting\<close> stands for \<^verbatim>\<open>defaulting.DefaultApplicationCatalog\<close>, which mutates the
  decoded catalog in place, and \<open>marshal\<close> for \<^verbatim>\<open>json.Marshal\<close>. The log statement
  after the defaulting reads \<^verbatim>\<open>catalog.Spec.Helm.Charts\<close> when the helm block or its
  chart list is nil, which dereferences a nil pointer when it is the helm block.
\<close>

definition handleMutation ::
  "(ApplicationCatalog \<Rightarrow> ApplicationCatalog) \<Rightarrow> (ApplicationCatalog \<Rightarrow> error + 'raw)
     \<Rightarrow> ('raw \<Rightarrow> error + ApplicationCatalog) \<Rightarrow> 'raw Request \<Rightarrow> 'raw Response" where
  "handleMutation defaulting marshal decode req =
     (case decode (Object_Raw req) of
        Inl err \<Rightarrow> Errored 400 (Wrapped ''failed to decode request'' err)
      | Inr decoded \<Rightarrow>
          (let catalog = defaulting decoded in
           if Helm catalog = None then NilPointerPanic
           else
             (case marshal catalog of
                Inl err \<Rightarrow> Errored 500 (Wrapped ''failed to marshal mutated object'' err)
              | Inr mutatedData \<Rightarrow> PatchResponseFromRaw (Object_Raw req) mutatedData)))"

definition mutation_Handle ::
  "(ApplicationCatalog \<Rightarrow> ApplicationCatalog) \<Rightarrow> (ApplicationCatalog \<Rightarrow> error + 'raw)
     \<Rightarrow> ('raw \<Rightarrow> error + ApplicationCatalog) \<Rightarrow> 'raw Request \<Rightarrow> 'raw Response" where
  "mutation_Handle defaulting marshal decode req =
     (if Operation req = admissionv1_Create \<or> Operation req = admissionv1_Update
        then handleMutation defaulting marshal decode req
      else Allowed (quoted (Operation req) @ '' operations do not require mutation''))"

section \<open>Example inputs\<close>

text \<open>
  A catalog with one chart and no repository settings anywhere, and a downstream resource
  of the same identity whose default-values block a user has edited.
\<close>

definition nginxChart :: ChartConfig where
  "nginxChart =
     \<lparr>ChartName = ''nginx'', Metadata = None, cc_RepositorySettings = None,
      cc_DefaultValuesBlock = ''replicas: 1'',
      ChartVersions = [\<lparr>cv_ChartVersion = ''1.0.0'', cv_AppVersion = ''v1.0.0'',
                        cv_RepositorySettings = None\<rparr>]\<rparr>"

definition catalogC2 :: ApplicationCatalog where
  "catalogC2 =
     \<lparr>ac_Name = ''c2'', ac_Annotations = Map.empty,
      Helm = Some \<lparr>hs_RepositorySettings = None, Charts = Some [nginxChart],
                   IncludeDefaults = False\<rparr>\<rparr>"

definition editedNginx :: ApplicationDefinition where
  "editedNginx =
     \<lparr>Name = ''nginx'',
      Labels = [LabelManagedByApplicationCatalog \<mapsto> ''true'',
                LabelApplicationCatalogName \<mapsto> ''c2'',
                ''team'' \<mapsto> ''platform''],
      Annotations = Map.empty,
      Spec = \<lparr>Method = ''helm'', spec_DisplayName = [], spec_Description = [],
               spec_DocumentationURL = [], spec_SourceURL = [], spec_Logo = [],
               spec_LogoFormat = [], DefaultValuesBlock = ''replicas: 5'', Enforced = True,
               Default = False, Selector_Datacenters = Some [''dc1''], Versions = []\<rparr>\<rparr>"

definition exVersion :: "string \<Rightarrow> string \<Rightarrow> ApplicationVersion" where
  "exVersion key url =
     \<lparr>Version = key,
      Template_Source_Helm =
        Some \<lparr>src_ChartName = ''nginx'', src_ChartVersion = key, URL = url,
              src_Credentials = None\<rparr>\<rparr>"

text \<open>
  A second catalog declaring the same chart, the resource of that identity owned by a
  catalog \<open>a\<close>, and a catalog two of whose charts resolve to one identity.
\<close>

definition catalogB :: ApplicationCatalog where
  "catalogB =
     \<lparr>ac_Name = ''b'', ac_Annotations = Map.empty,
      Helm = Some \<lparr>hs_RepositorySettings = None, Charts = Some [nginxChart],
                   IncludeDefaults = False\<rparr>\<rparr>"

definition nginxOwnedByA :: ApplicationDefinition where
  "nginxOwnedByA =
     (convertChartToApplicationDefinition catalogB nginxChart)
       \<lparr>Labels := [LabelManagedByApplicationCatalog \<mapsto> ''true'',
                    LabelApplicationCatalogName \<mapsto> ''a'']\<rparr>"

definition renamedChart :: "string \<Rightarrow> string \<Rightarrow> ChartConfig" where
  "renamedChart chartName appName =
     \<lparr>ChartName = chartName,
      Metadata = Some \<lparr>AppName = appName, DisplayName = ''NGINX'', Description = [],
                       DocumentationURL = [], SourceURL = [], Logo = [], LogoFormat = []\<rparr>,
      cc_RepositorySettings = None, cc_DefaultValuesBlock = [],
      ChartVersions = [\<lparr>cv_ChartVersion = ''1.0.0'', cv_AppVersion = ''v1.0.0'',
                        cv_RepositorySettings = None\<rparr>]\<rparr>"

definition dupCatalog :: ApplicationCatalog where
  "dupCatalog =
     \<lparr>ac_Name = ''b'', ac_Annotations = Map.empty,
      Helm = Some \<lparr>hs_RepositorySettings = None,
                   Charts = Some [renamedChart ''nginx-a'' ''nginx'', renamedChart ''nginx-b'' ''nginx''],
                   IncludeDefaults = False\<rparr>\<rparr>"

text \<open>
  A built-in default set of two charts, and catalogs with \<^verbatim>\<open>includeDefaults\<close> set: one
  adds a chart of its own and declares a chart whose override app name is the identity
  of a default, one filters the defaults by an annotation that names a chart that is no
  default.
\<close>

definition plainChart :: "string \<Rightarrow> string \<Rightarrow> ChartConfig" where
  "plainChart name values =
     \<lparr>ChartName = name, Metadata = None, cc_RepositorySettings = None,
      cc_DefaultValuesBlock = values,
      ChartVersions = [\<lparr>cv_ChartVersion = ''1.0.0'', cv_AppVersion = ''v1.0.0'',
                        cv_RepositorySettings = None\<rparr>]\<rparr>"

definition twoDefaults :: "ChartConfig list" where
  "twoDefaults = [plainChart ''cert-manager'' [], plainChart ''ingress-nginx'' []]"

definition syncedCatalog :: "string \<Rightarrow> ChartConfig list option \<Rightarrow> ApplicationCatalog" where
  "syncedCatalog annotation charts =
     \<lparr>ac_Name = ''synced'',
      ac_Annotations = (if annotation = [] then Map.empty else [IncludeAnnotation \<mapsto> annotation]),
      Helm = Some \<lparr>hs_RepositorySettings = None, Charts = charts, IncludeDefaults = True\<rparr>\<rparr>"

text \<open>
  A catalog whose only chart lists its versions newest first, the downstream resource the
  converter makes of it, and that resource with its versions sorted.
\<close>

definition descChart :: ChartConfig where
  "descChart =
     \<lparr>ChartName = ''nginx'', Metadata = None, cc_RepositorySettings = None,
      cc_DefaultValuesBlock = [],
      ChartVersions = [\<lparr>cv_ChartVersion = ''2.0.0'', cv_AppVersion = ''v2.0.0'',
                        cv_RepositorySettings = None\<rparr>,
                       \<lparr>cv_ChartVersion = ''1.0.0'', cv_AppVersion = ''v1.0.0'',
                        cv_RepositorySettings = None\<rparr>]\<rparr>"

definition descCatalog :: ApplicationCatalog where
  "descCatalog =
     \<lparr>ac_Name = ''desc'', ac_Annotations = Map.empty,
      Helm = Some \<lparr>hs_RepositorySettings = None, Charts = Some [descChart],
                   IncludeDefaults = False\<rparr>\<rparr>"

definition descCreated :: ApplicationDefinition where
  "descCreated = convertChartToApplicationDefinition descCatalog descChart"

definition descSorted :: ApplicationDefinition where
  "descSorted =
     descCreated\<lparr>Spec := (Spec descCreated)\<lparr>Versions :=
       [convertVersion descCatalog descChart
          \<lparr>cv_ChartVersion = ''1.0.0'', cv_AppVersion = ''v1.0.0'', cv_RepositorySettings = None\<rparr>,
        convertVersion descCatalog descChart
          \<lparr>cv_ChartVersion = ''2.0.0'', cv_AppVersion = ''v2.0.0'', cv_RepositorySettings = None\<rparr>]\<rparr>\<rparr>"

text \<open>
  The edited downstream resource with a given version list.
\<close>

definition withVersions :: "ApplicationVersion list \<Rightarrow> ApplicationDefinition" where
  "withVersions vs = editedNginx\<lparr>Spec := (Spec editedNginx)\<lparr>Versions := vs\<rparr>\<rparr>"

section \<open>Precedence resolution\<close>

text \<open>
  C1. For every catalog, chart entry and version ref, the resolved URL and the resolved
  credentials are both read off the winning layer, the first of version, chart and
  catalog-global settings whose base URL is non-empty (a settings object with an empty
  base URL does not win); when no layer wins the URL is the hard-coded default and there
  are no credentials. The two functions are total: there is no error result.
\<close>

theorem resolve_first_nonempty_layer:
  "(ResolveChartURL ac chart version, ResolveChartCredentials ac chart version) =
     (case winningLayer ac chart version of
        Some l \<Rightarrow> (BaseURL l, Credentials l)
      | None \<Rightarrow> (DefaultHelmRepository, None))"
  by (cases "cv_RepositorySettings version"; cases "cc_RepositorySettings chart"; cases "Helm ac")
     (auto simp: ResolveChartURL_def ResolveChartCredentials_def winningLayer_def layers_def
        GetGlobalRepositorySettings_def Let_def split: option.splits)

section \<open>Updating an existing downstream resource\<close>

lemma find_name_map_replace:
  assumes "find (\<lambda>a. Name a = n) xs = Some x" and "Name new = n"
  shows "find (\<lambda>a. Name a = n) (map (\<lambda>a. if Name a = n then new else a) xs) = Some new"
  using assms by (induction xs) (auto split: if_splits)

lemma find_snoc:
  "find P (xs @ [y]) = (case find P xs of Some x \<Rightarrow> Some x | None \<Rightarrow> if P y then Some y else None)"
  by (induction xs) auto

lemma Get_Some_Name: "Get n cl = Some x \<Longrightarrow> Name x = n"
  unfolding Get_def by (auto simp: find_Some_iff)

lemma Name_modified [simp]: "Name (modified existing desired) = Name existing"
  by (simp add: modified_def)

lemma update_result:
  assumes "Get (Name desired) cl = Some existing" "\<not> isSystemApplication existing"
  shows "reconcileApplicationDefinition desired cl =
           (None, cl\<lparr>objects := map (\<lambda>a. if Name a = Name existing then modified existing desired else a) (objects cl),
                      writes := writes cl @ [Patched existing (modified existing desired)]\<rparr>)"
  using assms Get_Some_Name[OF assms(1)]
  by (simp add: reconcileApplicationDefinition_def updateApplicationDefinition_def PatchObject_def)

text \<open>
  C6. When the reconciler finds a downstream resource of the desired name that is not
  externally managed, it patches it, and in the patched resource four fields of the
  existing state win over the catalog: the enforced flag and the default flag stay true
  when they were true, a datacenter selector that was set is kept as it was, and the
  default-values block is kept as it was unless it was empty or \<^verbatim>\<open>{}\<close>, in which
  case the catalog's block is applied. A block edited by a user therefore survives each
  later reconciliation.
\<close>

theorem update_keeps_cluster_fields:
  assumes "Get (Name desired) cl = Some existing" and "\<not> isSystemApplication existing"
  shows "\<exists>cl' r. reconcileApplicationDefinition desired cl = (None, cl')
           \<and> Get (Name desired) cl' = Some r
           \<and> Enforced (Spec r) = (Enforced (Spec existing) \<or> Enforced (Spec desired))
           \<and> Default (Spec r) = (Default (Spec existing) \<or> Default (Spec desired))
           \<and> Selector_Datacenters (Spec r) =
               (case Selector_Datacenters (Spec existing) of
                  Some dcs \<Rightarrow> Some dcs
                | None \<Rightarrow> Selector_Datacenters (Spec desired))
           \<and> DefaultValuesBlock (Spec r) =
               (if DefaultValuesBlock (Spec existing) = [] \<or> DefaultValuesBlock (Spec existing) = ''{}''
                then DefaultValuesBlock (Spec desired)
                else DefaultValuesBlock (Spec existing))"
proof -
  let ?r = "modified existing desired"
  have n: "Name existing = Name desired" using Get_Some_Name[OF assms(1)] .
  have g: "Get (Name desired)
             (cl\<lparr>objects := map (\<lambda>a. if Name a = Name existing then ?r else a) (objects cl),
                 writes := writes cl @ [Patched existing ?r]\<rparr>) = Some ?r"
    using assms(1) n find_name_map_replace[of "Name desired" "objects cl" existing ?r]
    by (simp add: Get_def)
  have f: "Enforced (Spec ?r) = (Enforced (Spec existing) \<or> Enforced (Spec desired))"
      "Default (Spec ?r) = (Default (Spec existing) \<or> Default (Spec desired))"
      "Selector_Datacenters (Spec ?r) =
               (case Selector_Datacenters (Spec existing) of
                  Some dcs \<Rightarrow> Some dcs
                | None \<Rightarrow> Selector_Datacenters (Spec desired))"
      "DefaultValuesBlock (Spec ?r) =
               (if DefaultValuesBlock (Spec existing) = [] \<or> DefaultValuesBlock (Spec existing) = ''{}''
                then DefaultValuesBlock (Spec desired)
                else DefaultValuesBlock (Spec existing))"
    by (auto simp: modified_def promotedSpec_def Let_def split: option.splits)
  show ?thesis
    using update_result[OF assms] g f by blast
qed

theorem update_keeps_cluster_fields_witness:
  "Get (Name (convertChartToApplicationDefinition catalogC2 nginxChart))
       \<lparr>objects = [editedNginx], writes = []\<rparr> = Some editedNginx
   \<and> \<not> isSystemApplication editedNginx
   \<and> (\<exists>cl' r. reconcileApplicationDefinition (convertChartToApplicationDefinition catalogC2 nginxChart)
                  \<lparr>objects = [editedNginx], writes = []\<rparr> = (None, cl')
         \<and> Get ''nginx'' cl' = Some r
         \<and> Enforced (Spec r) \<and> \<not> Default (Spec r)
         \<and> Selector_Datacenters (Spec r) = Some [''dc1'']
         \<and> DefaultValuesBlock (Spec r) = ''replicas: 5'')"
proof -
  let ?d = "convertChartToApplicationDefinition catalogC2 nginxChart"
  let ?cl = "\<lparr>objects = [editedNginx], writes = []\<rparr>"
  have nm: "Name ?d = ''nginx''"
    by (simp add: convertChartToApplicationDefinition_def GetAppName_def nginxChart_def)
  have h1: "Get (Name ?d) ?cl = Some editedNginx"
    by (simp add: nm Get_def editedNginx_def)
  have h2: "\<not> isSystemApplication editedNginx"
    by (simp add: isSystemApplication_def editedNginx_def LabelManagedByApplicationCatalog_def
          LabelApplicationCatalogName_def)
  have sp: "Enforced (Spec editedNginx)" "\<not> Default (Spec editedNginx)"
     "Selector_Datacenters (Spec editedNginx) = Some [''dc1'']"
     "DefaultValuesBlock (Spec editedNginx) = ''replicas: 5''"
     "\<not> Default (Spec ?d)"
    by (simp_all add: editedNginx_def convertChartToApplicationDefinition_def Let_def)
  from update_keeps_cluster_fields [OF h1 h2] sp nm h1 h2 show ?thesis
    by auto
qed

section \<open>Unmanaging orphans\<close>


lemma Get_mem: "a \<in> set (objects cl) \<Longrightarrow> \<exists>x. Get (Name a) cl = Some x"
  unfolding Get_def by (cases "find (\<lambda>x. Name x = Name a) (objects cl)") (auto simp: find_None_iff)

lemma Name_strippedLabels [simp]: "Name (strippedLabels a) = Name a"
  by (simp add: strippedLabels_def)

lemma replace_by_name:
  assumes "distinct (map Name xs)" "a \<in> set xs"
  shows "map (\<lambda>x. if Name x = Name a then b else x) xs = map (\<lambda>x. if x = a then b else x) xs"
  using assms by (auto simp: distinct_map inj_on_def)

lemma removeManagedLabels_result:
  assumes "distinct (map Name (objects cl))" "a \<in> set (objects cl)"
  shows "removeManagedLabels a cl =
     (None, cl\<lparr>objects := map (\<lambda>x. if x = a then strippedLabels a else x) (objects cl),
                writes := writes cl @ [Patched a (strippedLabels a)]\<rparr>)"
  using Get_mem[OF assms(2)] replace_by_name[OF assms]
  by (auto simp: removeManagedLabels_def PatchObject_def)

lemma unmanageLoop_result:
  assumes "distinct (map Name (objects cl))" "set items \<subseteq> set (objects cl)" "distinct (map Name items)"
  shows "unmanageLoop g items errs cl =
     (errs, cl\<lparr>objects := map (\<lambda>x. if x \<in> set items \<and> isOrphan g x then strippedLabels x else x) (objects cl),
                writes := writes cl @ map (\<lambda>x. Patched x (strippedLabels x)) (filter (isOrphan g) items)\<rparr>)"
  using assms
proof (induction items arbitrary: cl)
  case Nil
  then show ?case by simp
next
  case (Cons a items)
  show ?case
  proof (cases "isOrphan g a")
    case False
    have "\<And>x. (x \<in> set (a # items) \<and> isOrphan g x) = (x \<in> set items \<and> isOrphan g x)"
      using False by auto
    then show ?thesis using False Cons by simp
  next
    case True
    let ?cl = "cl\<lparr>objects := map (\<lambda>x. if x = a then strippedLabels a else x) (objects cl),
                writes := writes cl @ [Patched a (strippedLabels a)]\<rparr>"
    have a_in: "a \<in> set (objects cl)" using Cons.prems by simp
    have r: "removeManagedLabels a cl = (None, ?cl)"
      using removeManagedLabels_result[OF Cons.prems(1) a_in] .
    have names: "map Name (map (\<lambda>x. if x = a then strippedLabels a else x) (objects cl)) = map Name (objects cl)"
      by (induction "objects cl") auto
    have notin: "\<And>x. x \<in> set items \<Longrightarrow> Name x \<noteq> Name a"
      using Cons.prems(3) by (metis distinct.simps(2) image_eqI list.simps(9) set_map)
    have obj: "objects ?cl = map (\<lambda>x. if x = a then strippedLabels a else x) (objects cl)"
      by simp
    have d: "distinct (map Name (objects ?cl))"
      using Cons.prems(1) names obj by metis
    have s: "set items \<subseteq> set (objects ?cl)"
    proof
      fix x assume x: "x \<in> set items"
      then have "x \<noteq> a" using notin by blast
      moreover have "x \<in> set (objects cl)" using x Cons.prems(2) by auto
      ultimately show "x \<in> set (objects ?cl)" by (auto simp: image_iff)
    qed
    have ih: "unmanageLoop g items errs ?cl =
       (errs, ?cl\<lparr>objects := map (\<lambda>x. if x \<in> set items \<and> isOrphan g x then strippedLabels x else x) (objects ?cl),
                writes := writes ?cl @ map (\<lambda>x. Patched x (strippedLabels x)) (filter (isOrphan g) items)\<rparr>)"
      using Cons.IH[OF d s] Cons.prems(3) by simp
    have sn: "strippedLabels a \<notin> set items"
      using notin[of "strippedLabels a"] by auto
    have m: "map (\<lambda>x. if x \<in> set items \<and> isOrphan g x then strippedLabels x else x) (objects ?cl)
           = map (\<lambda>x. if x \<in> set (a # items) \<and> isOrphan g x then strippedLabels x else x) (objects cl)"
      using sn True by auto
    show ?thesis
      using True r ih m by simp
  qed
qed

lemma unmanageOrphans_result:
  assumes "wf_store (objects cl)"
  shows "unmanageOrphans catalogName g cl =
     (None, cl\<lparr>objects := map (\<lambda>a. if Labels a LabelApplicationCatalogName = Some catalogName \<and> isOrphan g a
                                   then strippedLabels a else a) (objects cl),
                writes := writes cl @ map (\<lambda>a. Patched a (strippedLabels a))
                            (filter (isOrphan g) (ListByLabel LabelApplicationCatalogName catalogName cl))\<rparr>)"
proof -
  let ?items = "ListByLabel LabelApplicationCatalogName catalogName cl"
  have d: "distinct (map Name (objects cl))" using assms by (simp add: wf_store_def)
  have s: "set ?items \<subseteq> set (objects cl)" by (auto simp: ListByLabel_def)
  have di: "distinct (map Name ?items)" unfolding ListByLabel_def using d by (simp add: distinct_map_filter)
  have "map (\<lambda>x. if x \<in> set ?items \<and> isOrphan g x then strippedLabels x else x) (objects cl)
      = map (\<lambda>a. if Labels a LabelApplicationCatalogName = Some catalogName \<and> isOrphan g a
                   then strippedLabels a else a) (objects cl)"
    by (auto simp: ListByLabel_def)
  then show ?thesis
    using unmanageLoop_result[OF d s di, of g "[]"]
    by (simp add: unmanageOrphans_def NewAggregate_def)
qed

text \<open>
  C7. Unmanaging orphans, in a cluster whose resource names are unique, answers without an
  error and leaves every resource in place: a resource labelled with the catalog as owner
  whose name is not among the generated ones loses the managed-by and the catalog-name
  label and nothing else (its name, annotations, other labels and spec are as before),
  every other resource is untouched, and no resource is created or deleted. On catalog
  deletion every resource labelled with the catalog as owner is treated so.
\<close>

theorem unmanage_strips_only_ownership_labels:
  assumes "wf_store (objects cl)"
  shows "(\<exists>cl'. unmanageOrphans catalogName generatedApps cl = (None, cl')
           \<and> objects cl' =
               map (\<lambda>a. if Labels a LabelApplicationCatalogName = Some catalogName
                            \<and> (case generatedApps of
                                  None \<Rightarrow> True | Some names \<Rightarrow> Name a \<notin> set names)
                         then a\<lparr>Labels := (Labels a)(LabelManagedByApplicationCatalog := None,
                                                     LabelApplicationCatalogName := None)\<rparr>
                         else a) (objects cl)
           \<and> filter (\<lambda>w. case w of Created _ \<Rightarrow> True | Patched _ _ \<Rightarrow> False)
                 (drop (length (writes cl)) (writes cl')) = [])
       \<and> (\<exists>cl'. handleDeletion catalogName cl = (None, cl')
           \<and> objects cl' =
               map (\<lambda>a. if Labels a LabelApplicationCatalogName = Some catalogName
                         then a\<lparr>Labels := (Labels a)(LabelManagedByApplicationCatalog := None,
                                                     LabelApplicationCatalogName := None)\<rparr>
                         else a) (objects cl))"
proof -
  have w: "\<And>xs. filter (\<lambda>w. case w of Created _ \<Rightarrow> True | Patched _ _ \<Rightarrow> False)
              (map (\<lambda>a. Patched a (strippedLabels a)) xs) = []"
    by (simp add: filter_empty_conv)
  have a: "isOrphan None = (\<lambda>a. True)" by (simp add: isOrphan_def fun_eq_iff)
  show ?thesis
    using unmanageOrphans_result[OF assms, of catalogName generatedApps]
          unmanageOrphans_result[OF assms, of catalogName None] w
    by (simp add: handleDeletion_def a strippedLabels_def isOrphan_def)
qed

theorem unmanage_strips_only_ownership_labels_witness:
  "wf_store [editedNginx]
   \<and> (\<exists>cl'. unmanageOrphans ''c2'' (Some []) \<lparr>objects = [editedNginx], writes = []\<rparr> = (None, cl')
        \<and> map Name (objects cl') = [''nginx'']
        \<and> map Spec (objects cl') = [Spec editedNginx]
        \<and> map (\<lambda>a. Labels a LabelManagedByApplicationCatalog) (objects cl') = [None]
        \<and> map (\<lambda>a. Labels a LabelApplicationCatalogName) (objects cl') = [None]
        \<and> map (\<lambda>a. Labels a ''team'') (objects cl') = [Some ''platform''])"
proof -
  have h: "wf_store (objects \<lparr>objects = [editedNginx], writes = []\<rparr>)"
    by (simp add: wf_store_def)
  have l: "Labels editedNginx LabelApplicationCatalogName = Some ''c2''"
          "Labels editedNginx ''team'' = Some ''platform''"
    by (simp_all add: editedNginx_def LabelApplicationCatalogName_def
          LabelManagedByApplicationCatalog_def)
  have n: "Name editedNginx = ''nginx''" by (simp add: editedNginx_def)
  have k: "''team'' \<noteq> LabelManagedByApplicationCatalog" "''team'' \<noteq> LabelApplicationCatalogName"
    by (simp_all add: LabelApplicationCatalogName_def LabelManagedByApplicationCatalog_def)
  from unmanage_strips_only_ownership_labels [OF h, of "''c2''" "Some []"] h l n k
  show ?thesis
    by (auto simp: isOrphan_def)
qed

section \<open>Operations other than create and update\<close>

text \<open>
  C10. For a request whose operation is neither create nor update (delete among them),
  the validating webhook answers with an allow whatever the decoder, the built-in defaults
  and the cluster are: nothing is decoded and neither the annotation nor the conflicts are
  checked. The mutating webhook answers with an allow too, whatever the decoder, the
  defaulting and the marshaller are: no mutation is applied.
\<close>

theorem other_operations_are_allowed:
  assumes "Operation req \<noteq> admissionv1_Create" and "Operation req \<noteq> admissionv1_Update"
  shows "validation_Handle defaults cluster decode req =
           Allowed (if Operation req = admissionv1_Delete
                    then ''delete operations do not require validation''
                    else quoted (Operation req) @ '' operations do not require validation'')
       \<and> mutation_Handle defaulting marshal decode req =
           Allowed (quoted (Operation req) @ '' operations do not require mutation'')"
  using assms by (simp add: validation_Handle_def mutation_Handle_def)

theorem other_operations_are_allowed_witness:
  "Operation \<lparr>Operation = ''DELETE'', Object_Raw = ''{}''\<rparr> \<noteq> admissionv1_Create
   \<and> Operation \<lparr>Operation = ''DELETE'', Object_Raw = ''{}''\<rparr> \<noteq> admissionv1_Update
   \<and> validation_Handle [] (Inl (ClientFailure ''down'')) (\<lambda>raw. Inl (ClientFailure ''malformed''))
        \<lparr>Operation = ''DELETE'', Object_Raw = ''{}''\<rparr>
       = Allowed ''delete operations do not require validation''
   \<and> mutation_Handle (\<lambda>c. c\<lparr>Helm := None\<rparr>) (\<lambda>c. Inl (ClientFailure ''marshal''))
        (\<lambda>raw. Inl (ClientFailure ''malformed'')) \<lparr>Operation = ''DELETE'', Object_Raw = ''{}''\<rparr>
       = Allowed ''\"DELETE\" operations do not require mutation''"
proof -
  let ?req = "\<lparr>Operation = ''DELETE'', Object_Raw = ''{}''\<rparr>"
  have h1: "Operation ?req \<noteq> admissionv1_Create" by (simp add: admissionv1_Create_def)
  have h2: "Operation ?req \<noteq> admissionv1_Update" by (simp add: admissionv1_Update_def)
  from other_operations_are_allowed [OF h1 h2] h1 h2 show ?thesis
    by (simp add: admissionv1_Delete_def quoted_def appendEscapedRune_def)
qed

section \<open>Merging and sorting versions\<close>

lemma indexFrom_notin:
  "k \<notin> Version ` set vs \<Longrightarrow> indexFrom i vs m k = m k"
  by (induction vs arbitrary: i m) auto

lemma indexFrom_append:
  "indexFrom i (xs @ ys) m = indexFrom (i + length xs) ys (indexFrom i xs m)"
  by (induction xs arbitrary: i m) auto

lemma existingIndex_last:
  assumes "Version v \<notin> Version ` set post"
  shows "existingIndex (pre @ v # post) (Version v) = Some (length pre)"
  using assms by (simp add: existingIndex_def indexFrom_append indexFrom_notin)

lemma existingIndex_None_iff:
  "existingIndex e k = None \<longleftrightarrow> k \<notin> Version ` set e"
proof
  assume "k \<notin> Version ` set e"
  then show "existingIndex e k = None" by (simp add: existingIndex_def indexFrom_notin)
next
  assume n: "existingIndex e k = None"
  show "k \<notin> Version ` set e"
  proof
    assume "k \<in> Version ` set e"
    then have "\<exists>x \<in> set e. Version x = k" by auto
    then obtain pre v post where "e = pre @ v # post" "Version v = k" "\<forall>z \<in> set post. Version z \<noteq> k"
      using split_list_last_prop[of e "\<lambda>x. Version x = k"] by blast
    then have "Version v \<notin> Version ` set post" "e = pre @ v # post" "Version v = k" by auto
    then have "existingIndex e k = Some (length pre)"
      using existingIndex_last[of v post pre] by simp
    with n show False by simp
  qed
qed

lemma existingIndex_Some_iff:
  "existingIndex e k = Some i \<longleftrightarrow> lastOfKey e i \<and> Version (e ! i) = k"
proof
  assume r: "lastOfKey e i \<and> Version (e ! i) = k"
  then have i: "i < length e" by (simp add: lastOfKey_def)
  have e: "e = take i e @ (e ! i) # drop (Suc i) e" using i by (simp add: id_take_nth_drop)
  have "Version (e ! i) \<notin> Version ` set (drop (Suc i) e)"
  proof
    assume "Version (e ! i) \<in> Version ` set (drop (Suc i) e)"
    then obtain x where "x \<in> set (drop (Suc i) e)" "Version x = Version (e ! i)" by auto
    then obtain n where "n < length (drop (Suc i) e)" "drop (Suc i) e ! n = x"
      by (auto simp: in_set_conv_nth)
    then have "Suc i + n < length e" "Version (e ! (Suc i + n)) = Version (e ! i)"
      using \<open>Version x = Version (e ! i)\<close> by auto
    with r show False unfolding lastOfKey_def by (metis less_add_Suc1 add_Suc)
  qed
  from existingIndex_last[OF this, of "take i e"] e r i
  show "existingIndex e k = Some i" by (metis length_take min.absorb2 less_imp_le_nat)
next
  assume s: "existingIndex e k = Some i"
  then have "k \<in> Version ` set e" using existingIndex_None_iff[of e k] by auto
  then have "\<exists>x \<in> set e. Version x = k" by auto
  then obtain pre v post where d: "e = pre @ v # post" "Version v = k" "\<forall>z \<in> set post. Version z \<noteq> k"
    using split_list_last_prop[of e "\<lambda>x. Version x = k"] by blast
  then have "Version v \<notin> Version ` set post" by auto
  then have "existingIndex e k = Some (length pre)"
    using existingIndex_last[of v post pre] d by simp
  with s have i: "i = length pre" by simp
  have "\<And>j. i < j \<Longrightarrow> j < length e \<Longrightarrow> Version (e ! j) \<noteq> k"
  proof -
    fix j assume "i < j" "j < length e"
    then have "e ! j = post ! (j - Suc i)" "j - Suc i < length post"
      using d(1) i by (auto simp: nth_append nth_Cons')
    then show "Version (e ! j) \<noteq> k" using d(3) by (metis nth_mem)
  qed
  then show "lastOfKey e i \<and> Version (e ! i) = k"
    using d i by (auto simp: lastOfKey_def)
qed

lemma mergeLoop_length:
  "length result \<le> length (mergeLoop idx result ds)"
proof (induction ds arbitrary: result)
  case Nil then show ?case by simp
next
  case (Cons d ds)
  show ?case
  proof (cases "idx (Version d)")
    case None
    then show ?thesis using Cons[of "result @ [d]"] by simp
  next
    case (Some i)
    then show ?thesis using Cons[of "result[i := d]"] by simp
  qed
qed

lemma mergeLoop_drop:
  assumes "\<And>k i. idx k = Some i \<Longrightarrow> i < n" "n \<le> length result"
  shows "drop n (mergeLoop idx result ds) = drop n result @ filter (\<lambda>d. idx (Version d) = None) ds"
  using assms(2)
proof (induction ds arbitrary: result)
  case Nil then show ?case by simp
next
  case (Cons d ds)
  show ?case
  proof (cases "idx (Version d)")
    case None
    then show ?thesis using Cons.IH[of "result @ [d]"] Cons.prems by simp
  next
    case (Some i)
    then have "i < n" using assms(1) by blast
    then show ?thesis using Some Cons.IH[of "result[i := d]"] Cons.prems by simp
  qed
qed

lemma mergeLoop_nth:
  assumes "i < n" "n \<le> length result"
  shows "mergeLoop idx result ds ! i =
           (if \<exists>d \<in> set ds. idx (Version d) = Some i
            then last (filter (\<lambda>d. idx (Version d) = Some i) ds) else result ! i)"
  using assms(2)
proof (induction ds arbitrary: result)
  case Nil then show ?case by simp
next
  case (Cons d ds)
  show ?case
  proof (cases "idx (Version d)")
    case None
    have "(result @ [d]) ! i = result ! i" using assms(1) Cons.prems by (simp add: nth_append)
    then show ?thesis using None Cons.IH[of "result @ [d]"] Cons.prems by simp
  next
    case (Some j)
    note ih = Cons.IH[of "result[j := d]"]
    show ?thesis
    proof (cases "j = i")
      case True
      have "result[j := d] ! i = d" using True assms(1) Cons.prems by simp
      then show ?thesis using Some True ih Cons.prems
        by (auto simp: filter_empty_conv)
    next
      case False
      then have "result[j := d] ! i = result ! i" by simp
      then show ?thesis using Some False ih Cons.prems by auto
    qed
  qed
qed


lemma mergeVersions_nth:
  assumes "i < length existing"
  shows "mergeVersions existing desired ! i =
        (if lastOfKey existing i \<and> Version (existing ! i) \<in> Version ` set desired
         then last (filter (\<lambda>d. Version d = Version (existing ! i)) desired) else existing ! i)"
proof (cases "desired = []")
  case True
  then show ?thesis using assms by (simp add: mergeVersions_def)
next
  case False
  let ?idx = "existingIndex existing"
  have m: "mergeVersions existing desired = mergeLoop ?idx existing desired"
    using False assms by (auto simp: mergeVersions_def)
  have n: "mergeLoop ?idx existing desired ! i =
           (if \<exists>d \<in> set desired. ?idx (Version d) = Some i
            then last (filter (\<lambda>d. ?idx (Version d) = Some i) desired) else existing ! i)"
    using mergeLoop_nth[OF assms, of existing ?idx desired] by simp
  show ?thesis
  proof (cases "lastOfKey existing i")
    case True
    have p: "\<And>d. (?idx (Version d) = Some i) = (Version d = Version (existing ! i))"
      using True by (auto simp: existingIndex_Some_iff)
    have "(\<exists>d \<in> set desired. ?idx (Version d) = Some i) = (Version (existing ! i) \<in> Version ` set desired)"
      unfolding p by (metis (no_types) image_iff)
    then show ?thesis using True m n unfolding p by simp
  next
    case False
    then have "\<And>d. ?idx (Version d) \<noteq> Some i" by (simp add: existingIndex_Some_iff)
    then have "\<not> (\<exists>d \<in> set desired. ?idx (Version d) = Some i)" by blast
    then show ?thesis using False m n by simp
  qed
qed

lemma mergeVersions_drop:
  "drop (length existing) (mergeVersions existing desired)
     = filter (\<lambda>d. Version d \<notin> Version ` set existing) desired"
proof (cases "existing = [] \<or> desired = []")
  case True
  then show ?thesis by (auto simp: mergeVersions_def)
next
  case False
  let ?idx = "existingIndex existing"
  have m: "mergeVersions existing desired = mergeLoop ?idx existing desired"
    using False by (auto simp: mergeVersions_def)
  have b: "\<And>k i. ?idx k = Some i \<Longrightarrow> i < length existing"
    by (simp add: existingIndex_Some_iff lastOfKey_def)
  have "drop (length existing) (mergeLoop ?idx existing desired)
          = drop (length existing) existing @ filter (\<lambda>d. ?idx (Version d) = None) desired"
    using mergeLoop_drop[of ?idx "length existing" existing desired] b by blast
  then show ?thesis using m by (simp add: existingIndex_None_iff)
qed

lemma mergeVersions_length: "length existing \<le> length (mergeVersions existing desired)"
  by (auto simp: mergeVersions_def mergeLoop_length)

lemma mergeVersions_key_nth:
  assumes "i < length existing"
  shows "Version (mergeVersions existing desired ! i) = Version (existing ! i)"
proof (cases "lastOfKey existing i \<and> Version (existing ! i) \<in> Version ` set desired")
  case False
  then show ?thesis using mergeVersions_nth[OF assms, of desired] by auto
next
  case True
  let ?f = "filter (\<lambda>d. Version d = Version (existing ! i)) desired"
  have "?f \<noteq> []" using True by (auto simp: filter_empty_conv)
  then have "last ?f \<in> set ?f" by (rule last_in_set)
  then have "Version (last ?f) = Version (existing ! i)" by simp
  then show ?thesis using True mergeVersions_nth[OF assms, of desired] by simp
qed

lemma mergeVersions_keys: "Version ` set existing \<subseteq> Version ` set (mergeVersions existing desired)"
proof
  fix k assume "k \<in> Version ` set existing"
  then obtain i where i: "i < length existing" "Version (existing ! i) = k"
    by (auto simp: in_set_conv_nth)
  then have "i < length (mergeVersions existing desired)"
    using mergeVersions_length[of existing desired] by simp
  then have "mergeVersions existing desired ! i \<in> set (mergeVersions existing desired)" by simp
  then show "k \<in> Version ` set (mergeVersions existing desired)"
    using mergeVersions_key_nth[OF i(1), of desired] i(2) by (metis image_eqI)
qed

lemma distinct_lastOfKey:
  assumes "distinct (map Version e)" "i < length e"
  shows "lastOfKey e i"
  unfolding lastOfKey_def using assms
  by (metis (no_types, lifting) length_map nat_neq_iff nth_eq_iff_index_eq nth_map)

lemma Versions_modified:
  "Versions (Spec (modified existing desired))
     = sortVersions (mergeVersions (Versions (Spec existing)) (Versions (Spec desired)))"
  by (simp add: modified_def promotedSpec_def Let_def)

lemma mergeVersions_length_eq:
  "length (mergeVersions existing desired)
     = length existing + length (filter (\<lambda>d. Version d \<notin> Version ` set existing) desired)"
proof -
  have "length (mergeVersions existing desired)
      = length (take (length existing) (mergeVersions existing desired))
        + length (drop (length existing) (mergeVersions existing desired))"
    by (metis append_take_drop_id length_append)
  then show ?thesis
    using mergeVersions_length[of existing desired] by (simp add: mergeVersions_drop)
qed

text \<open>
  C5 (as amended). When the reconciler updates a downstream resource, with \<open>E\<close> the version
  list it finds and \<open>D\<close> the one the catalog declares: the merge keeps every position
  of \<open>E\<close> with its key, so no key is lost, and its length is that of \<open>E\<close> plus the
  number of declared entries with a new key; the position that is the last of its key in
  \<open>E\<close> holds, when the catalog declares that key, the last declared entry of that key,
  and every other position holds the existing entry, so that with pairwise distinct keys
  in \<open>E\<close> every entry of a declared key is replaced in place; the entries after the
  positions of \<open>E\<close> are the declared entries with new keys, in their order; and the
  list stored in the patched resource holds exactly the entries of the merge, in ascending
  order of the application-version key.
\<close>

theorem reconciler_merges_versions_by_key:
  assumes "Get (Name desired) cl = Some existing" and "\<not> isSystemApplication existing"
      and "E = Versions (Spec existing)" and "D = Versions (Spec desired)"
  shows "\<exists>cl' stored merged.
           reconcileApplicationDefinition desired cl = (None, cl')
         \<and> Get (Name desired) cl' = Some stored
         \<and> mergeVersions E D = merged
         \<and> length merged = length E + length (filter (\<lambda>d. Version d \<notin> Version ` set E) D)
         \<and> (\<forall>i < length E. Version (merged ! i) = Version (E ! i))
         \<and> (\<forall>i < length E. merged ! i =
               (if lastOfKey E i \<and> Version (E ! i) \<in> Version ` set D
                then last (filter (\<lambda>d. Version d = Version (E ! i)) D)
                else E ! i))
         \<and> (distinct (map Version E) \<longrightarrow>
               (\<forall>i < length E. Version (E ! i) \<in> Version ` set D \<longrightarrow>
                  merged ! i = last (filter (\<lambda>d. Version d = Version (E ! i)) D)))
         \<and> drop (length E) merged = filter (\<lambda>d. Version d \<notin> Version ` set E) D
         \<and> mset (Versions (Spec stored)) = mset merged
         \<and> sorted (map Version (Versions (Spec stored)))
         \<and> Version ` set E \<subseteq> Version ` set (Versions (Spec stored))"
proof -
  let ?r = "modified existing desired"
  let ?m = "mergeVersions E D"
  have n: "Name existing = Name desired" using Get_Some_Name[OF assms(1)] .
  have g: "Get (Name desired)
             (cl\<lparr>objects := map (\<lambda>a. if Name a = Name existing then ?r else a) (objects cl),
                 writes := writes cl @ [Patched existing ?r]\<rparr>) = Some ?r"
    using assms(1) n find_name_map_replace[of "Name desired" "objects cl" existing ?r]
    by (simp add: Get_def)
  have v: "Versions (Spec ?r) = sortVersions ?m"
    using assms(3,4) by (simp add: Versions_modified)
  have p1: "length ?m = length E + length (filter (\<lambda>d. Version d \<notin> Version ` set E) D)"
    by (rule mergeVersions_length_eq)
  have p2: "\<forall>i < length E. Version (?m ! i) = Version (E ! i)"
    by (simp add: mergeVersions_key_nth)
  have p3: "\<forall>i < length E. ?m ! i =
               (if lastOfKey E i \<and> Version (E ! i) \<in> Version ` set D
                then last (filter (\<lambda>d. Version d = Version (E ! i)) D)
                else E ! i)"
    using mergeVersions_nth[of _ E D] by blast
  have p4: "distinct (map Version E) \<longrightarrow>
               (\<forall>i < length E. Version (E ! i) \<in> Version ` set D \<longrightarrow>
                  ?m ! i = last (filter (\<lambda>d. Version d = Version (E ! i)) D))"
    using p3 distinct_lastOfKey[of E] by simp
  have p5: "drop (length E) ?m = filter (\<lambda>d. Version d \<notin> Version ` set E) D"
    by (rule mergeVersions_drop)
  have p6: "mset (Versions (Spec ?r)) = mset ?m" by (simp add: v sortVersions_def)
  have p7: "sorted (map Version (Versions (Spec ?r)))" by (simp add: v sortVersions_def)
  have p8: "Version ` set E \<subseteq> Version ` set (Versions (Spec ?r))"
    using mergeVersions_keys[of E D] by (simp add: v sortVersions_def)
  show ?thesis
    using update_result[OF assms(1,2)] g p1 p2 p3 p4 p5 p6 p7 p8 by blast
qed


lemma withVersions_facts:
  "Name (withVersions vs) = ''nginx''"
  "\<not> isSystemApplication (withVersions vs)"
  "Versions (Spec (withVersions vs)) = vs"
  by (simp_all add: withVersions_def editedNginx_def isSystemApplication_def
        LabelManagedByApplicationCatalog_def LabelApplicationCatalogName_def)

theorem reconciler_merges_versions_by_key_witness:
  "Get (Name (withVersions [exVersion ''v1'' ''new'', exVersion ''v2'' ''new'']))
       \<lparr>objects = [withVersions [exVersion ''v3'' ''old'', exVersion ''v1'' ''old'']], writes = []\<rparr>
     = Some (withVersions [exVersion ''v3'' ''old'', exVersion ''v1'' ''old''])
   \<and> \<not> isSystemApplication (withVersions [exVersion ''v3'' ''old'', exVersion ''v1'' ''old''])
   \<and> (\<exists>cl' stored.
         reconcileApplicationDefinition (withVersions [exVersion ''v1'' ''new'', exVersion ''v2'' ''new''])
           \<lparr>objects = [withVersions [exVersion ''v3'' ''old'', exVersion ''v1'' ''old'']], writes = []\<rparr>
           = (None, cl')
       \<and> Get ''nginx'' cl' = Some stored
       \<and> mergeVersions [exVersion ''v3'' ''old'', exVersion ''v1'' ''old'']
                        [exVersion ''v1'' ''new'', exVersion ''v2'' ''new'']
           = [exVersion ''v3'' ''old'', exVersion ''v1'' ''new'', exVersion ''v2'' ''new'']
       \<and> mset (Versions (Spec stored))
           = mset [exVersion ''v3'' ''old'', exVersion ''v1'' ''new'', exVersion ''v2'' ''new'']
       \<and> sorted (map Version (Versions (Spec stored)))
       \<and> Versions (Spec stored)
           = [exVersion ''v1'' ''new'', exVersion ''v2'' ''new'', exVersion ''v3'' ''old''])"
proof -
  let ?E = "[exVersion ''v3'' ''old'', exVersion ''v1'' ''old'']"
  let ?D = "[exVersion ''v1'' ''new'', exVersion ''v2'' ''new'']"
  let ?cl = "\<lparr>objects = [withVersions ?E], writes = []\<rparr>"
  have h1: "Get (Name (withVersions ?D)) ?cl = Some (withVersions ?E)"
    by (simp add: Get_def withVersions_facts)
  have h2: "\<not> isSystemApplication (withVersions ?E)" by (rule withVersions_facts)
  have h3: "?E = Versions (Spec (withVersions ?E))" "?D = Versions (Spec (withVersions ?D))"
    by (simp_all add: withVersions_facts)
  have m: "mergeVersions ?E ?D = [exVersion ''v3'' ''old'', exVersion ''v1'' ''new'', exVersion ''v2'' ''new'']"
    by (simp add: mergeVersions_def existingIndex_def exVersion_def)
  from reconciler_merges_versions_by_key [OF h1 h2 h3]
  obtain cl' stored merged where k0:
    "reconcileApplicationDefinition (withVersions ?D) ?cl = (None, cl')"
    "Get (Name (withVersions ?D)) cl' = Some stored"
    "mergeVersions ?E ?D = merged"
    "mset (Versions (Spec stored)) = mset merged"
    "sorted (map Version (Versions (Spec stored)))"
    by (elim exE conjE) (rule that, assumption+)
  note k = k0(1,2) k0(4)[folded k0(3)] k0(5)
  have r: "reconcileApplicationDefinition (withVersions ?D) ?cl
      = (None, \<lparr>objects = [modified (withVersions ?E) (withVersions ?D)],
                 writes = [Patched (withVersions ?E) (modified (withVersions ?E) (withVersions ?D))]\<rparr>)"
    by (simp add: reconcileApplicationDefinition_def updateApplicationDefinition_def PatchObject_def
          Get_def withVersions_facts)
  have s: "stored = modified (withVersions ?E) (withVersions ?D)"
  proof -
    have "cl' = \<lparr>objects = [modified (withVersions ?E) (withVersions ?D)],
                 writes = [Patched (withVersions ?E) (modified (withVersions ?E) (withVersions ?D))]\<rparr>"
      using k(1) r by simp
    then have "Get ''nginx'' cl' = Some (modified (withVersions ?E) (withVersions ?D))"
      by (simp add: Get_def withVersions_facts)
    then show ?thesis using k(2) by (simp add: withVersions_facts)
  qed
  have "sortVersions [exVersion ''v3'' ''old'', exVersion ''v1'' ''new'', exVersion ''v2'' ''new'']
      = [exVersion ''v1'' ''new'', exVersion ''v2'' ''new'', exVersion ''v3'' ''old'']"
    by (simp add: sortVersions_def exVersion_def)
  then have v: "Versions (Spec stored)
      = [exVersion ''v1'' ''new'', exVersion ''v2'' ''new'', exVersion ''v3'' ''old'']"
    by (simp add: s Versions_modified withVersions_facts m)
  have g: "Get ''nginx'' cl' = Some stored" using k(2) by (simp only: withVersions_facts)
  have ms: "mset (Versions (Spec stored))
           = mset [exVersion ''v3'' ''old'', exVersion ''v1'' ''new'', exVersion ''v2'' ''new'']"
    using k(3) by (simp only: m)
  show ?thesis
    by (intro conjI exI[of _ cl'] exI[of _ stored]) (rule h1 h2 k(1) g m ms k(4) v)+
qed

lemma modified_withVersions:
  "modified (withVersions E) (withVersions D) = withVersions (sortVersions (mergeVersions E D))"
proof -
  have l: "\<And>m. EnsureLabels m m = m" "\<And>m. EnsureAnnotations m m = m"
    by (simp_all add: EnsureLabels_def EnsureAnnotations_def map_add_def fun_eq_iff split: option.split)
  show ?thesis
    by (simp add: modified_def withVersions_def l promotedSpec_def Let_def editedNginx_def)
qed

text \<open>
  The claim without the amendment fails for an existing list that repeats a key: the
  index of the merge holds one position for each key, the last one, so the earlier entry
  of a key the catalog still declares is not replaced and is stored again.
\<close>

theorem stale_entry_of_repeated_key_survives:
  "reconcileApplicationDefinition (withVersions [exVersion ''v1'' ''new''])
       \<lparr>objects = [withVersions [exVersion ''v1'' ''a'', exVersion ''v1'' ''b'']], writes = []\<rparr>
     = (None,
        \<lparr>objects = [withVersions [exVersion ''v1'' ''a'', exVersion ''v1'' ''new'']],
         writes = [Patched (withVersions [exVersion ''v1'' ''a'', exVersion ''v1'' ''b''])
                           (withVersions [exVersion ''v1'' ''a'', exVersion ''v1'' ''new''])]\<rparr>)
   \<and> mergeVersions [exVersion ''v1'' ''a'', exVersion ''v1'' ''b''] [exVersion ''v1'' ''new'']
       = [exVersion ''v1'' ''a'', exVersion ''v1'' ''new'']
   \<and> Version (exVersion ''v1'' ''a'') = Version (exVersion ''v1'' ''new'')
   \<and> exVersion ''v1'' ''a'' \<noteq> exVersion ''v1'' ''new''"
proof -
  let ?E = "[exVersion ''v1'' ''a'', exVersion ''v1'' ''b'']"
  let ?D = "[exVersion ''v1'' ''new'']"
  have m: "mergeVersions ?E ?D = [exVersion ''v1'' ''a'', exVersion ''v1'' ''new'']"
    by (simp add: mergeVersions_def existingIndex_def exVersion_def)
  have s: "sortVersions [exVersion ''v1'' ''a'', exVersion ''v1'' ''new'']
             = [exVersion ''v1'' ''a'', exVersion ''v1'' ''new'']"
    by (simp add: sortVersions_def exVersion_def)
  have r: "reconcileApplicationDefinition (withVersions ?D) \<lparr>objects = [withVersions ?E], writes = []\<rparr>
      = (None, \<lparr>objects = [modified (withVersions ?E) (withVersions ?D)],
                 writes = [Patched (withVersions ?E) (modified (withVersions ?E) (withVersions ?D))]\<rparr>)"
    by (simp add: reconcileApplicationDefinition_def updateApplicationDefinition_def PatchObject_def
          Get_def withVersions_facts)
  have v: "modified (withVersions ?E) (withVersions ?D)
             = withVersions [exVersion ''v1'' ''a'', exVersion ''v1'' ''new'']"
    by (simp only: modified_withVersions m s)
  have k: "Version (exVersion ''v1'' ''a'') = Version (exVersion ''v1'' ''new'')"
          "exVersion ''v1'' ''a'' \<noteq> exVersion ''v1'' ''new''"
    by (simp_all add: exVersion_def)
  show ?thesis
    by (intro conjI) (simp only: r v, rule m, rule k, rule k)
qed

section \<open>Conflict detection\<close>

lemma duplicateLoop_dom:
  "dom (fst (duplicateLoop charts m ks cs)) = dom m \<union> GetAppName ` set charts"
  by (induction charts arbitrary: m ks cs) (auto simp: Let_def split: option.splits)

lemma duplicateLoop_keys:
  "set (fst (snd (duplicateLoop charts m ks cs))) = set ks \<union> (GetAppName ` set charts - dom m)"
  by (induction charts arbitrary: m ks cs) (auto simp: Let_def split: option.splits)

lemma duplicateLoop_conflicts:
  "\<exists>dups. snd (snd (duplicateLoop charts m ks cs)) = cs @ dups
      \<and> (dups = [] \<longleftrightarrow> distinct (map GetAppName charts) \<and> GetAppName ` set charts \<inter> dom m = {})"
proof (induction charts arbitrary: m ks cs)
  case Nil
  then show ?case by simp
next
  case (Cons c charts)
  show ?case
  proof (cases "m (GetAppName c)")
    case None
    obtain dups where d: "snd (snd (duplicateLoop charts (m(GetAppName c \<mapsto> ChartName c)) (ks @ [GetAppName c]) cs)) = cs @ dups"
      "(dups = []) = (distinct (map GetAppName charts) \<and> GetAppName ` set charts \<inter> dom (m(GetAppName c \<mapsto> ChartName c)) = {})"
      using Cons.IH by blast
    have "(dups = []) = (distinct (map GetAppName (c # charts)) \<and> GetAppName ` set (c # charts) \<inter> dom m = {})"
      using d(2) None by auto
    then show ?thesis using None d(1) by (auto simp: Let_def)
  next
    case (Some e)
    let ?x = "\<lparr>AppDefName = GetAppName c,
               OwnerCatalog = ''this catalog (duplicate: charts '' @ quoted e @ '' and ''
                 @ quoted (ChartName c) @ '' resolve to same appName)''\<rparr>"
    obtain dups where d: "snd (snd (duplicateLoop charts m ks (cs @ [?x]))) = (cs @ [?x]) @ dups"
      using Cons.IH by blast
    have "GetAppName ` set (c # charts) \<inter> dom m \<noteq> {}" using Some by auto
    then show ?thesis using Some d by (auto simp: Let_def)
  qed
qed

lemma existingLoop_Some:
  assumes "distinct (map Name items)"
  shows "existingLoop m items ex k =
           (if m k \<noteq> None \<and> k \<in> Name ` set items then find (\<lambda>a. Name a = k) items else ex k)"
  using assms
proof (induction items arbitrary: ex)
  case Nil
  then show ?case by simp
next
  case (Cons a items)
  then show ?case by (auto simp: image_iff)
qed

lemma externalLoop_set:
  "set (externalLoop cat ex keys cs) =
     set cs \<union> {\<lparr>AppDefName = k, OwnerCatalog = ownerOf a\<rparr> | k a.
                  k \<in> set keys \<and> ex k = Some a \<and> ownerOf a \<noteq> [] \<and> ownerOf a \<noteq> cat}"
proof (induction keys arbitrary: cs)
  case Nil
  then show ?case by simp
next
  case (Cons k keys)
  show ?case
  proof (cases "ex k")
    case None
    then show ?thesis using Cons[of cs] by auto
  next
    case (Some a)
    show ?thesis
    proof (cases "ownerOf a = [] \<or> ownerOf a = cat")
      case True
      then show ?thesis using Some Cons[of cs] by (auto simp: Let_def ownerOf_def)
    next
      case False
      then show ?thesis
        using Some Cons[of "cs @ [\<lparr>AppDefName = k, OwnerCatalog = ownerOf a\<rparr>]"]
        by (auto simp: Let_def ownerOf_def)
    qed
  qed
qed


lemma find_by_name:
  assumes "distinct (map Name items)"
  shows "find (\<lambda>x. Name x = k) items = Some a \<longleftrightarrow> a \<in> set items \<and> Name a = k"
  using assms by (induction items) (auto simp: image_iff)

lemma externalPart:
  assumes "distinct (map Name items)"
  shows "existingLoop m items Map.empty k = Some a \<longleftrightarrow> m k \<noteq> None \<and> a \<in> set items \<and> Name a = k"
  using existingLoop_Some[OF assms, of m Map.empty k] find_by_name[OF assms, of k a]
  by (auto simp: image_iff)

lemma detectConflicts_set:
  assumes "wf_store objs"
  shows "\<exists>cs dups. detectConflicts (Inr objs) catalog = Inr cs
           \<and> set cs = set dups \<union> {\<lparr>AppDefName = Name a, OwnerCatalog = ownerOf a\<rparr> | a.
                                     a \<in> set objs \<and> conflictsWith catalog a}
           \<and> (dups = [] \<longleftrightarrow> distinct (identities catalog))"
proof -
  let ?charts = "case GetHelmCharts catalog of None \<Rightarrow> [] | Some cs \<Rightarrow> cs"
  show ?thesis
  proof (cases "?charts = []")
    case True
    then have "detectConflicts (Inr objs) catalog = Inr []"
      by (simp add: detectConflicts_def)
    moreover have "identities catalog = []" using True by (simp add: identities_def)
    ultimately show ?thesis by (auto simp: conflictsWith_def)
  next
    case False
    obtain m ks dc where dl: "duplicateLoop ?charts Map.empty [] [] = (m, ks, dc)"
      by (metis prod_cases3)
    let ?items = "filter (\<lambda>a. Labels a LabelManagedByApplicationCatalog = Some ''true'') objs"
    have dm: "dom m = set (identities catalog)"
      using duplicateLoop_dom[of ?charts Map.empty "[]" "[]"] dl by (simp add: identities_def)
    have dk: "set ks = set (identities catalog)"
      using duplicateLoop_keys[of ?charts Map.empty "[]" "[]"] dl by (simp add: identities_def)
    have dd: "(dc = []) = distinct (identities catalog)"
      using duplicateLoop_conflicts[of ?charts Map.empty "[]" "[]"] dl by (simp add: identities_def)
    have di: "distinct (map Name ?items)"
      using assms by (simp add: wf_store_def distinct_map_filter)
    have r: "detectConflicts (Inr objs) catalog =
               Inr (externalLoop (ac_Name catalog) (existingLoop m ?items Map.empty) ks dc)"
      using False dl by (simp add: detectConflicts_def clientList_def)
    have e: "\<And>k a. (k \<in> set ks \<and> existingLoop m ?items Map.empty k = Some a
                     \<and> ownerOf a \<noteq> [] \<and> ownerOf a \<noteq> ac_Name catalog)
                 = (k = Name a \<and> a \<in> set objs \<and> conflictsWith catalog a)"
      using dm dk by (auto simp: externalPart[OF di] conflictsWith_def)
    have "set (externalLoop (ac_Name catalog) (existingLoop m ?items Map.empty) ks dc)
            = set dc \<union> {\<lparr>AppDefName = Name a, OwnerCatalog = ownerOf a\<rparr> | a.
                                     a \<in> set objs \<and> conflictsWith catalog a}"
      unfolding externalLoop_set e by auto
    then show ?thesis using r dd by blast
  qed
qed

lemma conflictLine_sublist:
  assumes "c \<in> set conflicts"
  shows "sublist (conflictLine c) (formatConflictMessage conflicts)"
proof -
  obtain xs ys where "conflicts = xs @ c # ys" using assms by (meson split_list)
  then have "formatConflictMessage conflicts =
      (''ApplicationCatalog conflicts detected:'' @ [CHR 0x0A] @ concat (map conflictLine xs))
      @ conflictLine c
      @ (concat (map conflictLine ys)
        @ [CHR 0x0A] @ ''To resolve this conflict, either:'' @ [CHR 0x0A]
        @ ''  1. Remove the conflicting chart from this catalog'' @ [CHR 0x0A]
        @ ''  2. Use a different appName in metadata.appName for the chart'' @ [CHR 0x0A]
        @ ''  3. Delete the other catalog or remove the chart from it first'')"
    by (simp add: formatConflictMessage_def)
  then show ?thesis unfolding sublist_def by blast
qed

text \<open>
  C2 (as amended). For a catalog that passes the annotation check, decoded without error,
  and a cluster with unique resource names whose listing succeeds, the validator allows
  the request exactly when no two entries of the catalog resolve to the same identity and
  no downstream resource conflicts with it; a resource conflicts when its name is one of
  the catalog's identities, it carries the managed-by label with value true, and its
  owning-catalog label is non-empty and differs from the catalog's name (so a resource
  owned by the same catalog, or one with no owner, does not). Otherwise the request is
  denied, with a message formatted from a list of conflicts that holds every conflicting
  resource with its owner, and every conflict of the list has its line in the message.
\<close>

theorem conflict_detector_decision:
  assumes "wf_store objs" and "annotationAccepted defaults catalog"
  shows "(distinct (identities catalog) \<and> (\<forall>a \<in> set objs. \<not> conflictsWith catalog a)
            \<longrightarrow> handleValidation defaults (Inr objs) (Inr catalog) = Allowed ''no conflicts detected'')
       \<and> (\<not> (distinct (identities catalog) \<and> (\<forall>a \<in> set objs. \<not> conflictsWith catalog a))
            \<longrightarrow> (\<exists>conflicts.
                   handleValidation defaults (Inr objs) (Inr catalog)
                     = Denied (formatConflictMessage conflicts)
                   \<and> (\<forall>a \<in> set objs. conflictsWith catalog a \<longrightarrow>
                         \<lparr>AppDefName = Name a, OwnerCatalog = ownerOf a\<rparr> \<in> set conflicts)
                   \<and> (\<forall>c \<in> set conflicts.
                         sublist (conflictLine c) (formatConflictMessage conflicts))))"
proof -
  obtain cs dups where d: "detectConflicts (Inr objs) catalog = Inr cs"
     "set cs = set dups \<union> {\<lparr>AppDefName = Name a, OwnerCatalog = ownerOf a\<rparr> | a.
                                     a \<in> set objs \<and> conflictsWith catalog a}"
     "(dups = []) = distinct (identities catalog)"
    using detectConflicts_set[OF assms(1)] by blast
  have hv: "handleValidation defaults (Inr objs) (Inr catalog) =
              (if cs \<noteq> [] then Denied (formatConflictMessage cs) else Allowed ''no conflicts detected'')"
    using assms(2) d(1) by (auto simp: handleValidation_def annotationAccepted_def Let_def split: if_splits)
  have e: "(cs = []) = (distinct (identities catalog) \<and> (\<forall>a \<in> set objs. \<not> conflictsWith catalog a))"
  proof -
    have "(cs = []) = (set cs = {})" by simp
    also have "\<dots> = (set dups = {} \<and> (\<forall>a \<in> set objs. \<not> conflictsWith catalog a))"
      unfolding d(2) by auto
    finally show ?thesis using d(3) by simp
  qed
  show ?thesis
  proof (cases "cs = []")
    case True
    then show ?thesis using hv e by simp
  next
    case False
    have "\<forall>a \<in> set objs. conflictsWith catalog a \<longrightarrow>
                         \<lparr>AppDefName = Name a, OwnerCatalog = ownerOf a\<rparr> \<in> set cs"
      unfolding d(2) by auto
    moreover have "\<forall>c \<in> set cs. sublist (conflictLine c) (formatConflictMessage cs)"
      using conflictLine_sublist by blast
    ultimately show ?thesis using False hv e by auto
  qed
qed


theorem conflict_detector_decision_witness:
  "wf_store [nginxOwnedByA] \<and> annotationAccepted [] catalogB
   \<and> conflictsWith catalogB nginxOwnedByA
   \<and> (\<exists>conflicts. handleValidation [] (Inr [nginxOwnedByA]) (Inr catalogB)
                       = (Denied (formatConflictMessage conflicts) :: string Response)
         \<and> \<lparr>AppDefName = ''nginx'', OwnerCatalog = ''a''\<rparr> \<in> set conflicts
         \<and> sublist (conflictLine \<lparr>AppDefName = ''nginx'', OwnerCatalog = ''a''\<rparr>)
              (formatConflictMessage conflicts))
   \<and> wf_store [editedNginx] \<and> annotationAccepted [] catalogC2
   \<and> distinct (identities catalogC2) \<and> \<not> conflictsWith catalogC2 editedNginx
   \<and> handleValidation [] (Inr [editedNginx]) (Inr catalogC2)
        = (Allowed ''no conflicts detected'' :: string Response)"
proof -
  have w1: "wf_store [nginxOwnedByA]" "wf_store [editedNginx]" by (simp_all add: wf_store_def)
  have a1: "annotationAccepted [] catalogB" "annotationAccepted [] catalogC2"
    by (simp_all add: annotationAccepted_def catalogB_def catalogC2_def)
  have i1: "identities catalogB = [''nginx'']" "identities catalogC2 = [''nginx'']"
    by (simp_all add: identities_def GetHelmCharts_def catalogB_def catalogC2_def GetAppName_def
          nginxChart_def)
  have n: "Name nginxOwnedByA = ''nginx''" "ownerOf nginxOwnedByA = ''a''"
      "Labels nginxOwnedByA LabelManagedByApplicationCatalog = Some ''true''"
      "ownerOf editedNginx = ''c2''" "ac_Name catalogB = ''b''" "ac_Name catalogC2 = ''c2''"
    by (simp_all add: nginxOwnedByA_def convertChartToApplicationDefinition_def Let_def
          GetAppName_def nginxChart_def ownerOf_def mapIndex_def editedNginx_def catalogB_def
          catalogC2_def LabelManagedByApplicationCatalog_def LabelApplicationCatalogName_def)
  have c1: "conflictsWith catalogB nginxOwnedByA" by (simp add: conflictsWith_def i1 n)
  have c2: "\<not> conflictsWith catalogC2 editedNginx" by (simp add: conflictsWith_def i1 n)
  from conflict_detector_decision [OF w1(1) a1(1)] c1
  obtain conflicts where k:
     "handleValidation [] (Inr [nginxOwnedByA]) (Inr catalogB)
        = (Denied (formatConflictMessage conflicts) :: string Response)"
     "\<lparr>AppDefName = Name nginxOwnedByA, OwnerCatalog = ownerOf nginxOwnedByA\<rparr> \<in> set conflicts"
     "\<forall>c \<in> set conflicts. sublist (conflictLine c) (formatConflictMessage conflicts)"
    by auto
  have k2: "handleValidation [] (Inr [editedNginx]) (Inr catalogC2)
        = (Allowed ''no conflicts detected'' :: string Response)"
    using conflict_detector_decision [OF w1(2) a1(2)] c2 i1 by simp
  show ?thesis using w1 a1 c1 c2 k k2 i1 n by auto
qed

text \<open>
  The claim without the amendment fails: on an empty cluster, where no downstream resource
  exists at all, a catalog with two charts of one identity is denied.
\<close>

theorem duplicate_identity_denied_on_empty_cluster:
  "handleValidation [] (Inr []) (Inr dupCatalog)
     = (Denied (formatConflictMessage
          [\<lparr>AppDefName = ''nginx'',
            OwnerCatalog =
              ''this catalog (duplicate: charts \"nginx-a\" and \"nginx-b\" resolve to same appName)''\<rparr>])
        :: string Response)
   \<and> filter (conflictsWith dupCatalog) [] = []"
  by (simp add: handleValidation_def dupCatalog_def detectConflicts_def GetHelmCharts_def
        renamedChart_def GetAppName_def clientList_def quoted_def appendEscapedRune_def Let_def)

section \<open>Merging the built-in defaults with the user's entries\<close>

lemma userEntry_Cons:
  "userEntry (u # us) i =
     (if GetAppName u = i \<and> i \<notin> GetAppName ` set us then u else userEntry us i)"
proof (cases "i \<in> GetAppName ` set us")
  case True
  then have "filter (\<lambda>u. GetAppName u = i) us \<noteq> []" by (auto simp: filter_empty_conv)
  then show ?thesis using True by (simp add: userEntry_def)
next
  case False
  then have "filter (\<lambda>u. GetAppName u = i) us = []" by (auto simp: filter_empty_conv)
  then show ?thesis using False by (simp add: userEntry_def)
qed

lemma userEntry_mem:
  assumes "i \<in> GetAppName ` set us"
  shows "userEntry us i \<in> set us \<and> GetAppName (userEntry us i) = i"
proof -
  let ?f = "filter (\<lambda>u. GetAppName u = i) us"
  have "?f \<noteq> []" using assms by (auto simp: filter_empty_conv)
  then have "last ?f \<in> set ?f" by (rule last_in_set)
  then show ?thesis by (simp add: userEntry_def)
qed

lemma foldl_overwrite:
  "foldl (\<lambda>acc u. overwriteChart ids u acc) acc us
     = map (\<lambda>x. if GetAppName x \<in> set ids \<and> GetAppName x \<in> GetAppName ` set us
                 then userEntry us (GetAppName x) else x) acc
       @ filter (\<lambda>u. GetAppName u \<notin> set ids) us"
proof (induction us arbitrary: acc)
  case Nil then show ?case by simp
next
  case (Cons u us)
  show ?case
  proof (cases "GetAppName u \<in> set ids")
    case True
    have "map (\<lambda>x. if GetAppName x \<in> set ids \<and> GetAppName x \<in> GetAppName ` set us
                 then userEntry us (GetAppName x) else x)
            (map (\<lambda>x. if GetAppName x = GetAppName u then u else x) acc)
        = map (\<lambda>x. if GetAppName x \<in> set ids \<and> GetAppName x \<in> GetAppName ` set (u # us)
                 then userEntry (u # us) (GetAppName x) else x) acc"
      using True by (auto simp: userEntry_Cons)
    then show ?thesis using True Cons.IH[of "overwriteChart ids u acc"]
      by (simp add: overwriteChart_def)
  next
    case False
    have "map (\<lambda>x. if GetAppName x \<in> set ids \<and> GetAppName x \<in> GetAppName ` set us
                 then userEntry us (GetAppName x) else x) acc
        = map (\<lambda>x. if GetAppName x \<in> set ids \<and> GetAppName x \<in> GetAppName ` set (u # us)
                 then userEntry (u # us) (GetAppName x) else x) acc"
      using False by (auto simp: userEntry_Cons)
    then show ?thesis using False Cons.IH[of "overwriteChart ids u acc"]
      by (simp add: overwriteChart_def)
  qed
qed

lemma mergeCharts_closed:
  "mergeCharts us ds =
     sortCharts (map (\<lambda>d. if GetAppName d \<in> GetAppName ` set us
                          then userEntry us (GetAppName d) else d) ds
                 @ filter (\<lambda>u. GetAppName u \<notin> GetAppName ` set ds) us)"
proof -
  have "map (\<lambda>x. if GetAppName x \<in> set (map GetAppName ds) \<and> GetAppName x \<in> GetAppName ` set us
                 then userEntry us (GetAppName x) else x) ds
      = map (\<lambda>d. if GetAppName d \<in> GetAppName ` set us
                          then userEntry us (GetAppName d) else d) ds"
    by (rule map_cong) auto
  then have "map (\<lambda>x. if GetAppName x \<in> GetAppName ` set ds \<and> GetAppName x \<in> GetAppName ` set us
                 then userEntry us (GetAppName x) else x) ds
      = map (\<lambda>d. if GetAppName d \<in> GetAppName ` set us
                          then userEntry us (GetAppName d) else d) ds"
    by (simp only: set_map)
  then show ?thesis
    by (simp only: mergeCharts_def foldl_overwrite set_map)
qed

lemma filter_identity_distinct:
  assumes "distinct (map GetAppName ds)" "d \<in> set ds"
  shows "filter (\<lambda>x. GetAppName x = GetAppName d) ds = [d]"
  using assms
proof (induction ds)
  case Nil then show ?case by simp
next
  case (Cons a ds)
  show ?case
  proof (cases "a = d")
    case True
    then have "GetAppName d \<notin> GetAppName ` set ds" using Cons.prems by simp
    then have "filter (\<lambda>x. GetAppName x = GetAppName d) ds = []"
      unfolding filter_empty_conv by (metis image_eqI)
    then show ?thesis using True by simp
  next
    case False
    then have "GetAppName a \<noteq> GetAppName d" using Cons.prems by auto
    then show ?thesis using Cons False by auto
  qed
qed

lemma colliding_once:
  assumes "distinct (map GetAppName ds)" "u \<in> set us" "GetAppName u \<in> GetAppName ` set ds"
  shows "filter (\<lambda>x. GetAppName x = GetAppName u) (mergeCharts us ds) = [userEntry us (GetAppName u)]"
proof -
  let ?i = "GetAppName u"
  let ?R = "\<lambda>d. if GetAppName d \<in> GetAppName ` set us then userEntry us (GetAppName d) else d"
  obtain d where d: "d \<in> set ds" "GetAppName d = ?i" using assms(3) by auto
  have iu: "?i \<in> GetAppName ` set us" using assms(2) by simp
  have idR: "\<And>x. GetAppName (?R x) = GetAppName x"
    using userEntry_mem by simp
  have a: "filter (\<lambda>x. GetAppName x = ?i) (map ?R ds) = map ?R (filter (\<lambda>x. GetAppName x = ?i) ds)"
    unfolding filter_map o_def idR ..
  have b: "filter (\<lambda>x. GetAppName x = ?i) ds = [d]"
    using filter_identity_distinct[OF assms(1) d(1)] d(2) by simp
  have c: "filter (\<lambda>x. GetAppName x = ?i) (filter (\<lambda>u. GetAppName u \<notin> GetAppName ` set ds) us) = []"
    using assms(3) by (auto simp: filter_empty_conv)
  have "filter (\<lambda>x. GetAppName x = ?i) (mergeCharts us ds)
      = sortCharts (filter (\<lambda>x. GetAppName x = ?i)
          (map ?R ds @ filter (\<lambda>u. GetAppName u \<notin> GetAppName ` set ds) us))"
    unfolding mergeCharts_closed sortCharts_def by (rule filter_sort)
  also have "\<dots> = sortCharts [?R d]" using a b c by simp
  also have "\<dots> = [userEntry us ?i]" using d(2) iu by (simp add: sortCharts_def)
  finally show ?thesis .
qed


text \<open>
  C3. For a catalog with \<^verbatim>\<open>includeDefaults\<close> set and a populated chart list, the
  defaulting changes only the chart list. With \<open>filtered\<close> the built-in defaults
  filtered by the annotation and sorted by name, the new list is \<open>filtered\<close>, in which
  each default whose identity is that of a user entry is replaced by the user's entry of
  that identity (an entry of the user's list, taken as a whole), followed by the user
  entries whose identity is that of no entry of \<open>filtered\<close>, all of it sorted by chart
  name. With no
  filter annotation its length is the number of built-in defaults plus the number of user
  entries whose identity is that of no default. When the identities of the defaults are
  pairwise distinct, an identity on which a user entry and a default collide occurs once
  in the new list, on the user's entry.
\<close>

theorem defaults_merge_with_user_entries:
  assumes "Helm catalog = Some h" and "IncludeDefaults h"
      and "Charts h = Some userCharts" and "userCharts \<noteq> []"
      and "filtered = sortCharts (filterDefaultsByName defaults
                                    (mapIndex (ac_Annotations catalog) IncludeAnnotation))"
  shows "\<exists>merged.
           syncDefaults defaults catalog = catalog\<lparr>Helm := Some (h\<lparr>Charts := Some merged\<rparr>)\<rparr>
         \<and> merged = sortCharts
              (map (\<lambda>d. if GetAppName d \<in> GetAppName ` set userCharts
                         then userEntry userCharts (GetAppName d) else d) filtered
               @ filter (\<lambda>u. GetAppName u \<notin> GetAppName ` set filtered) userCharts)
         \<and> sorted (map ChartName merged)
         \<and> (\<forall>d \<in> set filtered. GetAppName d \<in> GetAppName ` set userCharts \<longrightarrow>
               userEntry userCharts (GetAppName d) \<in> set userCharts
               \<and> GetAppName (userEntry userCharts (GetAppName d)) = GetAppName d)
         \<and> (mapIndex (ac_Annotations catalog) IncludeAnnotation = [] \<longrightarrow>
               length merged
                 = length defaults
                   + length (filter (\<lambda>u. GetAppName u \<notin> GetAppName ` set defaults) userCharts))
         \<and> (distinct (map GetAppName defaults) \<longrightarrow>
               (\<forall>u \<in> set userCharts. GetAppName u \<in> GetAppName ` set filtered \<longrightarrow>
                  filter (\<lambda>x. GetAppName x = GetAppName u) merged
                    = [userEntry userCharts (GetAppName u)]))"
proof -
  let ?a = "mapIndex (ac_Annotations catalog) IncludeAnnotation"
  let ?m = "mergeCharts userCharts filtered"
  have s: "syncDefaults defaults catalog = catalog\<lparr>Helm := Some (h\<lparr>Charts := Some ?m\<rparr>)\<rparr>"
    using assms(1,3,4,5) by (simp add: syncDefaults_def syncedCharts_def)
  have c: "?m = sortCharts
              (map (\<lambda>d. if GetAppName d \<in> GetAppName ` set userCharts
                         then userEntry userCharts (GetAppName d) else d) filtered
               @ filter (\<lambda>u. GetAppName u \<notin> GetAppName ` set filtered) userCharts)"
    by (rule mergeCharts_closed)
  have so: "sorted (map ChartName ?m)" by (simp add: mergeCharts_def sortCharts_def)
  have w: "\<forall>d \<in> set filtered. GetAppName d \<in> GetAppName ` set userCharts \<longrightarrow>
               userEntry userCharts (GetAppName d) \<in> set userCharts
               \<and> GetAppName (userEntry userCharts (GetAppName d)) = GetAppName d"
    using userEntry_mem by blast
  have l: "?a = [] \<longrightarrow> length ?m
                 = length defaults
                   + length (filter (\<lambda>u. GetAppName u \<notin> GetAppName ` set defaults) userCharts)"
  proof
    assume "?a = []"
    then have f: "set filtered = set defaults" "length filtered = length defaults"
      using assms(5) by (simp_all add: filterDefaultsByName_def sortCharts_def)
    show "length ?m = length defaults
                   + length (filter (\<lambda>u. GetAppName u \<notin> GetAppName ` set defaults) userCharts)"
      unfolding c by (simp add: sortCharts_def f)
  qed
  have o: "distinct (map GetAppName defaults) \<longrightarrow>
               (\<forall>u \<in> set userCharts. GetAppName u \<in> GetAppName ` set filtered \<longrightarrow>
                  filter (\<lambda>x. GetAppName x = GetAppName u) ?m
                    = [userEntry userCharts (GetAppName u)])"
  proof
    assume d: "distinct (map GetAppName defaults)"
    have "mset (map GetAppName filtered)
            = mset (map GetAppName (filterDefaultsByName defaults ?a))"
      using assms(5) by (simp add: sortCharts_def)
    then have "distinct (map GetAppName filtered)
            = distinct (map GetAppName (filterDefaultsByName defaults ?a))"
      by (rule mset_eq_imp_distinct_iff)
    then have "distinct (map GetAppName filtered)"
      using d by (simp add: filterDefaultsByName_def distinct_map_filter)
    then show "\<forall>u \<in> set userCharts. GetAppName u \<in> GetAppName ` set filtered \<longrightarrow>
                  filter (\<lambda>x. GetAppName x = GetAppName u) ?m
                    = [userEntry userCharts (GetAppName u)]"
      using colliding_once by blast
  qed
  show ?thesis
    by (intro exI[of _ ?m] conjI) (rule s c so w l o)+
qed


theorem defaults_merge_with_user_entries_witness:
  "Helm (syncedCatalog [] (Some [plainChart ''my-app'' [], renamedChart ''my-nginx'' ''ingress-nginx'']))
     = Some \<lparr>hs_RepositorySettings = None,
             Charts = Some [plainChart ''my-app'' [], renamedChart ''my-nginx'' ''ingress-nginx''],
             IncludeDefaults = True\<rparr>
   \<and> mapIndex (ac_Annotations
        (syncedCatalog [] (Some [plainChart ''my-app'' [], renamedChart ''my-nginx'' ''ingress-nginx''])))
        IncludeAnnotation = []
   \<and> distinct (map GetAppName twoDefaults)
   \<and> GetAppName (renamedChart ''my-nginx'' ''ingress-nginx'') \<in> GetAppName ` set twoDefaults
   \<and> GetAppName (plainChart ''my-app'' []) \<notin> GetAppName ` set twoDefaults
   \<and> (\<exists>merged.
         Helm (syncDefaults twoDefaults
                 (syncedCatalog [] (Some [plainChart ''my-app'' [], renamedChart ''my-nginx'' ''ingress-nginx''])))
           = Some \<lparr>hs_RepositorySettings = None, Charts = Some merged, IncludeDefaults = True\<rparr>
         \<and> merged = [plainChart ''cert-manager'' [], plainChart ''my-app'' [],
                      renamedChart ''my-nginx'' ''ingress-nginx'']
         \<and> length merged = length twoDefaults + 1
         \<and> filter (\<lambda>x. GetAppName x = ''ingress-nginx'') merged
             = [renamedChart ''my-nginx'' ''ingress-nginx''])"
proof -
  let ?us = "[plainChart ''my-app'' [], renamedChart ''my-nginx'' ''ingress-nginx'']"
  let ?h = "\<lparr>hs_RepositorySettings = None, Charts = Some ?us, IncludeDefaults = True\<rparr>"
  let ?c = "syncedCatalog [] (Some ?us)"
  have h1: "Helm ?c = Some ?h" by (simp add: syncedCatalog_def)
  have h2: "IncludeDefaults ?h" by simp
  have h3: "Charts ?h = Some ?us" by simp
  have h4: "?us \<noteq> []" by simp
  have a: "mapIndex (ac_Annotations ?c) IncludeAnnotation = []"
    by (simp add: syncedCatalog_def mapIndex_def)
  have h5: "twoDefaults = sortCharts (filterDefaultsByName twoDefaults
                                    (mapIndex (ac_Annotations ?c) IncludeAnnotation))"
    unfolding a by (simp add: filterDefaultsByName_def sortCharts_def twoDefaults_def plainChart_def)
  have ids: "GetAppName (plainChart ''my-app'' []) = ''my-app''"
            "GetAppName (renamedChart ''my-nginx'' ''ingress-nginx'') = ''ingress-nginx''"
            "map GetAppName twoDefaults = [''cert-manager'', ''ingress-nginx'']"
    by (simp_all add: GetAppName_def plainChart_def renamedChart_def twoDefaults_def)
  have dd: "distinct (map GetAppName twoDefaults)" by (simp add: ids)
  have i1: "GetAppName (renamedChart ''my-nginx'' ''ingress-nginx'') \<in> GetAppName ` set twoDefaults"
           "GetAppName (plainChart ''my-app'' []) \<notin> GetAppName ` set twoDefaults"
    using ids(3) by (simp_all only: ids(1,2) set_map[symmetric]) simp_all
  have n: "length (filter (\<lambda>u. GetAppName u \<notin> GetAppName ` set twoDefaults) ?us) = 1"
    using i1 by simp
  have e: "userEntry ?us ''ingress-nginx'' = renamedChart ''my-nginx'' ''ingress-nginx''"
    by (simp add: userEntry_def ids)
  from defaults_merge_with_user_entries [OF h1 h2 h3 h4 h5]
  obtain merged where k:
    "syncDefaults twoDefaults ?c = ?c\<lparr>Helm := Some (?h\<lparr>Charts := Some merged\<rparr>)\<rparr>"
    "merged = sortCharts
              (map (\<lambda>d. if GetAppName d \<in> GetAppName ` set ?us
                         then userEntry ?us (GetAppName d) else d) twoDefaults
               @ filter (\<lambda>u. GetAppName u \<notin> GetAppName ` set twoDefaults) ?us)"
    "mapIndex (ac_Annotations ?c) IncludeAnnotation = [] \<longrightarrow>
       length merged = length twoDefaults
          + length (filter (\<lambda>u. GetAppName u \<notin> GetAppName ` set twoDefaults) ?us)"
    "distinct (map GetAppName twoDefaults) \<longrightarrow>
       (\<forall>u \<in> set ?us. GetAppName u \<in> GetAppName ` set twoDefaults \<longrightarrow>
          filter (\<lambda>x. GetAppName x = GetAppName u) merged = [userEntry ?us (GetAppName u)])"
    by (elim exE conjE) (rule that, assumption+)
  have hh: "Helm (syncDefaults twoDefaults ?c)
      = Some \<lparr>hs_RepositorySettings = None, Charts = Some merged, IncludeDefaults = True\<rparr>"
    using k(1) by simp
  have l: "length merged = length twoDefaults + 1" using k(3) a n by simp
  have o: "filter (\<lambda>x. GetAppName x = ''ingress-nginx'') merged
             = [renamedChart ''my-nginx'' ''ingress-nginx'']"
    using k(4) dd i1(1) e by (simp add: ids(2))
  have fl: "filter (\<lambda>u. GetAppName u \<notin> GetAppName ` set twoDefaults) ?us = [plainChart ''my-app'' []]"
    using i1 by simp
  have mp: "map (\<lambda>d. if GetAppName d \<in> GetAppName ` set ?us
                         then userEntry ?us (GetAppName d) else d) twoDefaults
      = [plainChart ''cert-manager'' [], renamedChart ''my-nginx'' ''ingress-nginx'']"
    by (simp add: twoDefaults_def ids e) (simp add: GetAppName_def plainChart_def)
  have m: "merged = [plainChart ''cert-manager'' [], plainChart ''my-app'' [],
                      renamedChart ''my-nginx'' ''ingress-nginx'']"
    unfolding k(2) fl mp by (simp add: sortCharts_def plainChart_def renamedChart_def)
  show ?thesis
    by (intro conjI exI[of _ merged]) (rule h1 a dd i1 hh m l o)+
qed

section \<open>The filter annotation at admission and at defaulting\<close>

lemma sublist_within: "sublist x y \<Longrightarrow> sublist x (p @ y @ s)"
proof -
  assume "sublist x y"
  then obtain ps ss where "y = ps @ x @ ss" unfolding sublist_def by blast
  then have "p @ y @ s = (p @ ps) @ x @ (ss @ s)" by simp
  then show ?thesis unfolding sublist_def by blast
qed

lemma sublist_joinWith: "x \<in> set xs \<Longrightarrow> sublist x (joinWith sep xs)"
proof (induction sep xs rule: joinWith.induct)
  case (1 sep) then show ?case by simp
next
  case (2 sep y) then show ?case by simp
next
  case (3 sep a b ys)
  show ?case
  proof (cases "x = a")
    case True
    have "sublist a ([] @ a @ (sep @ joinWith sep (b # ys)))" by (rule sublist_within) simp
    then show ?thesis using True by simp
  next
    case False
    then have "sublist x (joinWith sep (b # ys))" using 3 by auto
    then have "sublist x ((a @ sep) @ joinWith sep (b # ys) @ [])" by (rule sublist_within)
    then show ?thesis by simp
  qed
qed

lemma sublist_fmtSlice: "x \<in> set xs \<Longrightarrow> sublist x (fmtSlice xs)"
  unfolding fmtSlice_def using sublist_within[OF sublist_joinWith] by blast


lemma filter_by_valid_identifiers:
  "filter (\<lambda>chart. ChartName chart \<in> set ids) defaults
     = filter (\<lambda>chart. ChartName chart
                 \<in> set (filter (\<lambda>name. name \<in> set (GetDefaultChartNames defaults)) ids)) defaults"
  by (rule filter_cong) (auto simp: GetDefaultChartNames_def)

text \<open>
  C8. For a catalog with \<^verbatim>\<open>includeDefaults\<close> set whose filter annotation is not
  empty and holds, among its comma-separated and trimmed identifiers, one that names no
  built-in default: the validator denies the request, whatever the cluster is, with a
  message that holds the invalid names and the names of all built-in defaults; the
  defaulting engine, for the same catalog, filters the defaults exactly as if the
  annotation held its valid identifiers only, and yields the catalog with the chart list
  built from these.
\<close>

theorem annotation_strict_at_admission_lenient_at_defaulting:
  assumes "Helm catalog = Some h" and "IncludeDefaults h"
      and "mapIndex (ac_Annotations catalog) IncludeAnnotation = annotation"
      and "annotation \<noteq> []"
      and "bad \<in> set (includeList annotation)"
      and "bad \<notin> set (GetDefaultChartNames defaults)"
  shows "handleValidation defaults cluster (Inr catalog)
           = Denied (invalidAnnotationMessage
                       (filter (\<lambda>name. name \<notin> set (GetDefaultChartNames defaults))
                          (includeList annotation))
                       (GetDefaultChartNames defaults))
       \<and> sublist bad
            (invalidAnnotationMessage
               (filter (\<lambda>name. name \<notin> set (GetDefaultChartNames defaults)) (includeList annotation))
               (GetDefaultChartNames defaults))
       \<and> (\<forall>valid \<in> set (GetDefaultChartNames defaults).
             sublist valid
               (invalidAnnotationMessage
                  (filter (\<lambda>name. name \<notin> set (GetDefaultChartNames defaults)) (includeList annotation))
                  (GetDefaultChartNames defaults)))
       \<and> filterDefaultsByName defaults annotation
           = filter (\<lambda>chart. ChartName chart
                      \<in> set (filter (\<lambda>name. name \<in> set (GetDefaultChartNames defaults))
                               (includeList annotation))) defaults
       \<and> Helm (syncDefaults defaults catalog)
           = Some (h\<lparr>Charts := Some
               (case Charts h of
                  None \<Rightarrow> sortCharts (filterDefaultsByName defaults annotation)
                | Some userCharts \<Rightarrow>
                    if userCharts = [] then sortCharts (filterDefaultsByName defaults annotation)
                    else mergeCharts userCharts
                           (sortCharts (filterDefaultsByName defaults annotation)))\<rparr>)"
proof -
  let ?names = "GetDefaultChartNames defaults"
  let ?inv = "filter (\<lambda>name. name \<notin> set ?names) (includeList annotation)"
  have v: "ValidateIncludeAnnotation defaults annotation = ?inv"
    using assms(4) by (simp add: ValidateIncludeAnnotation_def)
  have b: "bad \<in> set ?inv" using assms(5,6) by simp
  then have ne: "length ?inv > 0" by (metis length_pos_if_in_set)
  have d: "handleValidation defaults cluster (Inr catalog)
           = Denied (invalidAnnotationMessage ?inv ?names)"
    using assms(1,2,3) v ne by (simp add: handleValidation_def Let_def)
  have m1: "sublist bad (invalidAnnotationMessage ?inv ?names)"
    unfolding invalidAnnotationMessage_def
    using sublist_within[OF sublist_fmtSlice[OF b]] by blast
  have m2: "\<forall>valid \<in> set ?names. sublist valid (invalidAnnotationMessage ?inv ?names)"
  proof
    fix valid assume "valid \<in> set ?names"
    then have "sublist valid (fmtSlice ?names)" by (rule sublist_fmtSlice)
    then have "sublist valid
       ((''invalid chart names in annotation defaultcatalog.k8c.io/include: '' @ fmtSlice ?inv
          @ ''. Valid names are: '') @ fmtSlice ?names @ [])"
      by (rule sublist_within)
    then show "sublist valid (invalidAnnotationMessage ?inv ?names)"
      by (simp add: invalidAnnotationMessage_def)
  qed
  have f: "filterDefaultsByName defaults annotation
           = filter (\<lambda>chart. ChartName chart
                      \<in> set (filter (\<lambda>name. name \<in> set ?names) (includeList annotation))) defaults"
    using assms(4) filter_by_valid_identifiers[of "includeList annotation" defaults]
    by (simp add: filterDefaultsByName_def)
  have s: "Helm (syncDefaults defaults catalog)
           = Some (h\<lparr>Charts := Some
               (case Charts h of
                  None \<Rightarrow> sortCharts (filterDefaultsByName defaults annotation)
                | Some userCharts \<Rightarrow>
                    if userCharts = [] then sortCharts (filterDefaultsByName defaults annotation)
                    else mergeCharts userCharts
                           (sortCharts (filterDefaultsByName defaults annotation)))\<rparr>)"
    using assms(1,3) by (simp add: syncDefaults_def syncedCharts_def Let_def)
  show ?thesis using d m1 m2 f s by blast
qed

theorem annotation_strict_at_admission_lenient_at_defaulting_witness:
  "Helm (syncedCatalog ''ingress-nginx , bogus'' None)
     = Some \<lparr>hs_RepositorySettings = None, Charts = None, IncludeDefaults = True\<rparr>
   \<and> mapIndex (ac_Annotations (syncedCatalog ''ingress-nginx , bogus'' None)) IncludeAnnotation
       = ''ingress-nginx , bogus''
   \<and> ''bogus'' \<in> set (includeList ''ingress-nginx , bogus'')
   \<and> ''bogus'' \<notin> set (GetDefaultChartNames twoDefaults)
   \<and> handleValidation twoDefaults (Inr []) (Inr (syncedCatalog ''ingress-nginx , bogus'' None))
       = (Denied ''invalid chart names in annotation defaultcatalog.k8c.io/include: [bogus]. Valid names are: [cert-manager ingress-nginx]''
          :: string Response)
   \<and> Helm (syncDefaults twoDefaults (syncedCatalog ''ingress-nginx , bogus'' None))
       = Some \<lparr>hs_RepositorySettings = None, Charts = Some [plainChart ''ingress-nginx'' []],
               IncludeDefaults = True\<rparr>"
proof -
  let ?c = "syncedCatalog ''ingress-nginx , bogus'' None"
  let ?h = "\<lparr>hs_RepositorySettings = None, Charts = None, IncludeDefaults = True\<rparr>"
  have h1: "Helm ?c = Some ?h" by (simp add: syncedCatalog_def)
  have h2: "IncludeDefaults ?h" by simp
  have h3: "mapIndex (ac_Annotations ?c) IncludeAnnotation = ''ingress-nginx , bogus''"
    by (simp add: syncedCatalog_def mapIndex_def)
  have h4: "''ingress-nginx , bogus'' \<noteq> []" by simp
  have il: "includeList ''ingress-nginx , bogus'' = [''ingress-nginx'', ''bogus'']"
    by (simp add: includeList_def TrimSpace_def isSpace_def)
  have h5: "''bogus'' \<in> set (includeList ''ingress-nginx , bogus'')" by (simp add: il)
  have nm: "GetDefaultChartNames twoDefaults = [''cert-manager'', ''ingress-nginx'']"
    by (simp add: GetDefaultChartNames_def twoDefaults_def plainChart_def)
  have h6: "''bogus'' \<notin> set (GetDefaultChartNames twoDefaults)" by (simp add: nm)
  have msg: "invalidAnnotationMessage
               (filter (\<lambda>name. name \<notin> set (GetDefaultChartNames twoDefaults))
                  (includeList ''ingress-nginx , bogus''))
               (GetDefaultChartNames twoDefaults)
      = ''invalid chart names in annotation defaultcatalog.k8c.io/include: [bogus]. Valid names are: [cert-manager ingress-nginx]''"
    by (simp add: il nm invalidAnnotationMessage_def fmtSlice_def)
  have flt: "filter (\<lambda>chart. ChartName chart
                      \<in> set (filter (\<lambda>name. name \<in> set (GetDefaultChartNames twoDefaults))
                               (includeList ''ingress-nginx , bogus''))) twoDefaults
             = [plainChart ''ingress-nginx'' []]"
    by (simp add: il nm) (simp add: twoDefaults_def plainChart_def)
  note t = annotation_strict_at_admission_lenient_at_defaulting
             [OF h1 h2 h3 h4 h5 h6, of "Inr []"]
  have "handleValidation twoDefaults (Inr []) (Inr ?c)
       = (Denied (invalidAnnotationMessage
               (filter (\<lambda>name. name \<notin> set (GetDefaultChartNames twoDefaults))
                  (includeList ''ingress-nginx , bogus''))
               (GetDefaultChartNames twoDefaults)) :: string Response)"
    by (rule conjunct1 [OF t])
  then have d: "handleValidation twoDefaults (Inr []) (Inr ?c)
       = (Denied ''invalid chart names in annotation defaultcatalog.k8c.io/include: [bogus]. Valid names are: [cert-manager ingress-nginx]''
          :: string Response)"
    by (simp only: msg)
  note t4 = conjunct2 [OF conjunct2 [OF conjunct2 [OF t]]]
  have "filterDefaultsByName twoDefaults ''ingress-nginx , bogus'' = [plainChart ''ingress-nginx'' []]"
    using conjunct1 [OF t4] flt by simp
  then have s: "Helm (syncDefaults twoDefaults ?c)
       = Some \<lparr>hs_RepositorySettings = None, Charts = Some [plainChart ''ingress-nginx'' []],
               IncludeDefaults = True\<rparr>"
    using conjunct2 [OF t4] by (simp add: sortCharts_def)
  show ?thesis using h1 h3 h5 h6 d s by blast
qed

section \<open>Running the reconciler twice\<close>

lemma labels_desc:
  "Labels descCreated = [LabelManagedByApplicationCatalog \<mapsto> ''true'',
                         LabelApplicationCatalogName \<mapsto> ''desc'']"
  "Name descCreated = ''nginx''" "Annotations descCreated = Map.empty"
  by (simp_all add: descCreated_def convertChartToApplicationDefinition_def Let_def descCatalog_def
        GetAppName_def descChart_def)

lemma ensure_same: "EnsureLabels m m = m" "EnsureAnnotations m m = m"
  by (simp_all add: EnsureLabels_def EnsureAnnotations_def map_add_def fun_eq_iff split: option.split)

lemma versions_desc:
  "Versions (Spec descCreated) =
     [convertVersion descCatalog descChart
          \<lparr>cv_ChartVersion = ''2.0.0'', cv_AppVersion = ''v2.0.0'', cv_RepositorySettings = None\<rparr>,
      convertVersion descCatalog descChart
          \<lparr>cv_ChartVersion = ''1.0.0'', cv_AppVersion = ''v1.0.0'', cv_RepositorySettings = None\<rparr>]"
  by (simp add: descCreated_def convertChartToApplicationDefinition_def Let_def convertVersions_def
        descChart_def)

lemma keys_desc:
  "Version (convertVersion descCatalog descChart
          \<lparr>cv_ChartVersion = ''2.0.0'', cv_AppVersion = ''v2.0.0'', cv_RepositorySettings = None\<rparr>) = ''v2.0.0''"
  "Version (convertVersion descCatalog descChart
          \<lparr>cv_ChartVersion = ''1.0.0'', cv_AppVersion = ''v1.0.0'', cv_RepositorySettings = None\<rparr>) = ''v1.0.0''"
  by (simp_all add: convertVersion_def)

lemma spec_fields_desc:
  "Enforced (Spec descCreated) = False" "Default (Spec descCreated) = False"
  "Selector_Datacenters (Spec descCreated) = None" "DefaultValuesBlock (Spec descCreated) = []"
  by (simp_all add: descCreated_def convertChartToApplicationDefinition_def Let_def descChart_def)

lemma modified_created: "modified descCreated descCreated = descSorted"
  by (simp add: modified_def ensure_same promotedSpec_def Let_def spec_fields_desc versions_desc
        mergeVersions_def existingIndex_def keys_desc sortVersions_def descSorted_def)

lemma modified_sorted: "modified descSorted descCreated = descSorted"
  by (simp add: modified_def ensure_same promotedSpec_def Let_def spec_fields_desc versions_desc
        mergeVersions_def existingIndex_def keys_desc sortVersions_def descSorted_def labels_desc)

lemma created_neq_sorted: "descCreated \<noteq> descSorted"
proof
  assume "descCreated = descSorted"
  then have "Versions (Spec descCreated) = Versions (Spec descSorted)" by simp
  then show False by (simp add: versions_desc descSorted_def convertVersion_def)
qed

text \<open>
  C9. The claim says that a second run of the reconciler, right after the first and over
  the same catalog, issues no create and no patch that changes anything. On an empty
  cluster and a catalog whose chart lists its versions newest first, the first run creates
  the resource with the versions in the catalog's order; the second run finds it, sorts
  the merged versions and patches the resource, which changes it; only the third run
  issues a patch that changes nothing.
\<close>

theorem second_run_patches_unsorted_versions:
  "reconcile (Inr descCatalog) ''desc'' \<lparr>objects = [], writes = []\<rparr>
     = (None, \<lparr>objects = [descCreated], writes = [Created descCreated]\<rparr>)
   \<and> reconcile (Inr descCatalog) ''desc'' \<lparr>objects = [descCreated], writes = []\<rparr>
     = (None, \<lparr>objects = [descSorted], writes = [Patched descCreated descSorted]\<rparr>)
   \<and> effective (Patched descCreated descSorted)
   \<and> reconcile (Inr descCatalog) ''desc'' \<lparr>objects = [descSorted], writes = []\<rparr>
     = (None, \<lparr>objects = [descSorted], writes = [Patched descSorted descSorted]\<rparr>)
   \<and> \<not> effective (Patched descSorted descSorted)"
proof -
  have c: "GetHelmCharts descCatalog = Some [descChart]" "Helm descCatalog \<noteq> None"
      "ac_Name descCatalog = ''desc''"
    by (simp_all add: GetHelmCharts_def descCatalog_def)
  have d: "convertChartToApplicationDefinition descCatalog descChart = descCreated"
    by (simp add: descCreated_def)
  have ns: "Name descSorted = ''nginx''"
      "Labels descSorted = [LabelManagedByApplicationCatalog \<mapsto> ''true'',
                         LabelApplicationCatalogName \<mapsto> ''desc'']"
    by (simp_all add: descSorted_def labels_desc)
  have sys: "\<not> isSystemApplication descCreated" "\<not> isSystemApplication descSorted"
    by (simp_all add: isSystemApplication_def labels_desc ns
          LabelManagedByApplicationCatalog_def LabelApplicationCatalogName_def)
  have r1: "reconcile (Inr descCatalog) ''desc'' \<lparr>objects = [], writes = []\<rparr>
     = (None, \<lparr>objects = [descCreated], writes = [Created descCreated]\<rparr>)"
    by (simp add: reconcile_def c d Let_def reconcileApplicationDefinition_def Get_def Create_def
          unmanageOrphans_def ListByLabel_def labels_desc isOrphan_def NewAggregate_def)
  have r2: "reconcile (Inr descCatalog) ''desc'' \<lparr>objects = [descCreated], writes = []\<rparr>
     = (None, \<lparr>objects = [descSorted], writes = [Patched descCreated descSorted]\<rparr>)"
    by (simp add: reconcile_def c d Let_def reconcileApplicationDefinition_def Get_def sys
          updateApplicationDefinition_def PatchObject_def modified_created
          unmanageOrphans_def ListByLabel_def labels_desc ns isOrphan_def NewAggregate_def)
  have r3: "reconcile (Inr descCatalog) ''desc'' \<lparr>objects = [descSorted], writes = []\<rparr>
     = (None, \<lparr>objects = [descSorted], writes = [Patched descSorted descSorted]\<rparr>)"
    by (simp add: reconcile_def c d Let_def reconcileApplicationDefinition_def Get_def sys
          updateApplicationDefinition_def PatchObject_def modified_sorted
          unmanageOrphans_def ListByLabel_def labels_desc ns isOrphan_def NewAggregate_def)
  show ?thesis using r1 r2 r3 created_neq_sorted by simp
qed

subsection \<open>What does hold of a second run\<close>

text \<open>
  The order of the versions of a created resource is the only obstacle. The update is a
  fixed point of itself: merging the desired versions into the sorted merge changes
  nothing, and the four promoted fields keep their values. So when every chart lists its
  versions in ascending order of the key, the identities of the catalog are pairwise
  distinct (which admission enforces) and the names in the cluster are unique, the second
  run sends only patches that change nothing. The result is stated for version lists
  without a repeated key, in the charts and in the resources of the cluster: every list
  that is sorted in the two runs is then free of repeated keys, and the model of
  \<^verbatim>\<open>sort.Slice\<close> is exact on it.
\<close>

lemma lastOfKey_cong:
  assumes "map Version L = map Version L'"
  shows "lastOfKey L j = lastOfKey L' j"
proof -
  have l: "length L = length L'" using assms by (metis length_map)
  have "\<And>i. i < length L \<Longrightarrow> Version (L ! i) = Version (L' ! i)"
    using assms l by (metis nth_map)
  then show ?thesis unfolding lastOfKey_def using l by auto
qed

lemma last_filter_lastOfKey:
  assumes "lastOfKey L j"
  shows "last (filter (\<lambda>x. Version x = Version (L ! j)) L) = L ! j"
proof -
  have j: "j < length L" using assms by (simp add: lastOfKey_def)
  have "filter (\<lambda>x. Version x = Version (L ! j)) (drop (Suc j) L) = []"
  proof -
    have "\<And>x. x \<in> set (drop (Suc j) L) \<Longrightarrow> Version x \<noteq> Version (L ! j)"
    proof -
      fix x assume "x \<in> set (drop (Suc j) L)"
      then obtain n where n: "n < length (drop (Suc j) L)" "drop (Suc j) L ! n = x"
        by (auto simp: in_set_conv_nth)
      then have "Suc j + n < length L" "L ! (Suc j + n) = x" by auto
      then show "Version x \<noteq> Version (L ! j)"
        using assms unfolding lastOfKey_def by (metis less_add_Suc1 add_Suc)
    qed
    then show ?thesis by (simp add: filter_empty_conv)
  qed
  then have "filter (\<lambda>x. Version x = Version (L ! j)) (take j L @ (L ! j) # drop (Suc j) L)
      = filter (\<lambda>x. Version x = Version (L ! j)) (take j L) @ [L ! j]"
    by simp
  then have "filter (\<lambda>x. Version x = Version (L ! j)) L
      = filter (\<lambda>x. Version x = Version (L ! j)) (take j L) @ [L ! j]"
    by (simp only: id_take_nth_drop[OF j, symmetric])
  then show ?thesis by simp
qed

lemma exists_lastOfKey:
  assumes "k \<in> Version ` set E"
  shows "\<exists>j. lastOfKey E j \<and> Version (E ! j) = k"
proof -
  have "existingIndex E k \<noteq> None" using assms by (simp add: existingIndex_None_iff)
  then obtain j where "existingIndex E k = Some j" by blast
  then show ?thesis using existingIndex_Some_iff by blast
qed

lemma mergeVersions_take_keys:
  "map Version (take (length E) (mergeVersions E D)) = map Version E"
proof (rule nth_equalityI)
  show "length (map Version (take (length E) (mergeVersions E D))) = length (map Version E)"
    using mergeVersions_length[of E D] by simp
next
  fix i assume "i < length (map Version (take (length E) (mergeVersions E D)))"
  then have i: "i < length E" by simp
  then show "map Version (take (length E) (mergeVersions E D)) ! i = map Version E ! i"
    using mergeVersions_key_nth[OF i, of D] mergeVersions_length[of E D] by simp
qed

lemma mergeVersions_last_of_key:
  assumes "k \<in> Version ` set D"
  shows "last (filter (\<lambda>x. Version x = k) (mergeVersions E D)) = last (filter (\<lambda>x. Version x = k) D)"
proof -
  let ?M = "mergeVersions E D"
  let ?n = "length E"
  have "filter (\<lambda>x. Version x = k) (take ?n ?M @ drop ?n ?M)
      = filter (\<lambda>x. Version x = k) (take ?n ?M) @ filter (\<lambda>x. Version x = k) (drop ?n ?M)"
    by (rule filter_append)
  then have split: "filter (\<lambda>x. Version x = k) ?M
      = filter (\<lambda>x. Version x = k) (take ?n ?M) @ filter (\<lambda>x. Version x = k) (drop ?n ?M)"
    by (simp only: append_take_drop_id)
  have dr: "drop ?n ?M = filter (\<lambda>d. Version d \<notin> Version ` set E) D" by (rule mergeVersions_drop)
  have tk: "map Version (take ?n ?M) = map Version E" by (rule mergeVersions_take_keys)
  show ?thesis
  proof (cases "k \<in> Version ` set E")
    case True
    then obtain j where j: "lastOfKey E j" "Version (E ! j) = k" using exists_lastOfKey by blast
    then have jl: "j < length E" by (simp add: lastOfKey_def)
    have d0: "filter (\<lambda>x. Version x = k) (drop ?n ?M) = []"
      unfolding dr using True by (auto simp: filter_empty_conv)
    have lt: "lastOfKey (take ?n ?M) j" using lastOfKey_cong[OF tk] j(1) by simp
    have kt: "Version (take ?n ?M ! j) = k"
      using tk jl j(2) by (metis length_map nth_map)
    have "last (filter (\<lambda>x. Version x = k) (take ?n ?M)) = take ?n ?M ! j"
      using last_filter_lastOfKey[OF lt] kt by simp
    also have "\<dots> = ?M ! j" using jl by simp
    also have "\<dots> = last (filter (\<lambda>d. Version d = k) D)"
      using mergeVersions_nth[OF jl, of D] j assms by simp
    finally show ?thesis using split d0 by simp
  next
    case False
    have "\<And>x. x \<in> set (take ?n ?M) \<Longrightarrow> Version x \<noteq> k"
    proof -
      fix x assume "x \<in> set (take ?n ?M)"
      then have "Version x \<in> set (map Version (take ?n ?M))" by simp
      then have "Version x \<in> Version ` set E" unfolding tk by simp
      then show "Version x \<noteq> k" using False by auto
    qed
    then have t0: "filter (\<lambda>x. Version x = k) (take ?n ?M) = []" by (simp add: filter_empty_conv)
    have "filter (\<lambda>x. Version x = k) (filter (\<lambda>d. Version d \<notin> Version ` set E) D)
            = filter (\<lambda>x. Version x = k) D"
      using False by (induction D) auto
    then have "filter (\<lambda>x. Version x = k) (drop ?n ?M) = filter (\<lambda>x. Version x = k) D"
      by (simp only: dr)
    then show ?thesis using split t0 by simp
  qed
qed

lemma mergeVersions_keys_desired:
  "Version ` set D \<subseteq> Version ` set (mergeVersions E D)"
proof
  fix k assume k: "k \<in> Version ` set D"
  show "k \<in> Version ` set (mergeVersions E D)"
  proof (cases "k \<in> Version ` set E")
    case True
    then show ?thesis using mergeVersions_keys[of E D] by blast
  next
    case False
    obtain d where d: "d \<in> set D" "Version d = k" using k by auto
    then have "d \<in> set (drop (length E) (mergeVersions E D))"
      using False by (simp add: mergeVersions_drop)
    then have "d \<in> set (mergeVersions E D)" by (rule in_set_dropD)
    then show ?thesis using d(2) by auto
  qed
qed

lemma mergeVersions_fixed:
  assumes "Version ` set D \<subseteq> Version ` set S"
      and "\<And>k. k \<in> Version ` set D \<Longrightarrow>
             last (filter (\<lambda>x. Version x = k) S) = last (filter (\<lambda>x. Version x = k) D)"
  shows "mergeVersions S D = S"
proof (rule nth_equalityI)
  have "drop (length S) (mergeVersions S D) = []"
    using assms(1) by (auto simp: mergeVersions_drop filter_empty_conv)
  then show l: "length (mergeVersions S D) = length S"
    using mergeVersions_length[of S D] by simp
  fix i assume "i < length (mergeVersions S D)"
  then have i: "i < length S" using l by simp
  show "mergeVersions S D ! i = S ! i"
  proof (cases "lastOfKey S i \<and> Version (S ! i) \<in> Version ` set D")
    case True
    then have "last (filter (\<lambda>d. Version d = Version (S ! i)) D) = S ! i"
      using assms(2)[of "Version (S ! i)"] last_filter_lastOfKey[of S i] by simp
    then show ?thesis using True mergeVersions_nth[OF i, of D] by simp
  next
    case False
    then show ?thesis using mergeVersions_nth[OF i, of D] by auto
  qed
qed

lemma sort_merge_fixed:
  "sortVersions (mergeVersions (sortVersions (mergeVersions E D)) D) = sortVersions (mergeVersions E D)"
proof -
  let ?S = "sortVersions (mergeVersions E D)"
  have k: "Version ` set D \<subseteq> Version ` set ?S"
    using mergeVersions_keys_desired[of D E] by (simp add: sortVersions_def)
  have f: "\<And>k. k \<in> Version ` set D \<Longrightarrow>
             last (filter (\<lambda>x. Version x = k) ?S) = last (filter (\<lambda>x. Version x = k) D)"
    unfolding sortVersions_def sort_key_stable by (rule mergeVersions_last_of_key)
  have "mergeVersions ?S D = ?S" using mergeVersions_fixed[OF k f] by simp
  moreover have "sortVersions ?S = ?S"
    by (simp add: sortVersions_def sort_key_id_if_sorted)
  ultimately show ?thesis by simp
qed

lemma merge_same: "mergeVersions V V = V"
  by (rule mergeVersions_fixed) auto


lemma promotedSpec_fields:
  "Method (promotedSpec es ds) = Method ds"
  "spec_DisplayName (promotedSpec es ds) = spec_DisplayName ds"
  "spec_Description (promotedSpec es ds) = spec_Description ds"
  "spec_DocumentationURL (promotedSpec es ds) = spec_DocumentationURL ds"
  "spec_SourceURL (promotedSpec es ds) = spec_SourceURL ds"
  "spec_Logo (promotedSpec es ds) = spec_Logo ds"
  "spec_LogoFormat (promotedSpec es ds) = spec_LogoFormat ds"
  "DefaultValuesBlock (promotedSpec es ds) =
     (if DefaultValuesBlock es \<noteq> [] \<and> DefaultValuesBlock es \<noteq> ''{}''
      then DefaultValuesBlock es else DefaultValuesBlock ds)"
  "Enforced (promotedSpec es ds) = (Enforced es \<or> Enforced ds)"
  "Default (promotedSpec es ds) = (Default es \<or> Default ds)"
  "Selector_Datacenters (promotedSpec es ds) =
     (if Selector_Datacenters es \<noteq> None then Selector_Datacenters es else Selector_Datacenters ds)"
  "Versions (promotedSpec es ds) = sortVersions (mergeVersions (Versions es) (Versions ds))"
  "ApplicationDefinitionSpec.more (promotedSpec es ds) = ApplicationDefinitionSpec.more ds"
  by (simp_all add: promotedSpec_def Let_def)

lemma promotedSpec_idem: "promotedSpec (promotedSpec es ds) ds = promotedSpec es ds"
  by (rule ApplicationDefinitionSpec.equality)
     (auto simp: promotedSpec_fields sort_merge_fixed)

lemma promotedSpec_same:
  assumes "sorted (map Version (Versions s))"
  shows "promotedSpec s s = s"
proof -
  have "sortVersions (mergeVersions (Versions s) (Versions s)) = Versions s"
    using assms by (simp add: merge_same sortVersions_def sort_key_id_if_sorted)
  then show ?thesis
    by (intro ApplicationDefinitionSpec.equality) (auto simp: promotedSpec_fields)
qed

lemma map_add_twice: "(m ++ n) ++ n = m ++ n"
  by (simp add: map_add_def fun_eq_iff split: option.split)

lemma map_add_self: "m ++ m = m"
  by (simp add: map_add_def fun_eq_iff split: option.split)

lemma modified_idem: "modified (modified e d) d = modified e d"
  by (simp add: modified_def EnsureLabels_def EnsureAnnotations_def map_add_twice promotedSpec_idem)

lemma modified_same:
  assumes "sorted (map Version (Versions (Spec d)))"
  shows "modified d d = d"
  using assms
  by (simp add: modified_def EnsureLabels_def EnsureAnnotations_def map_add_self promotedSpec_same)

lemma convert_Name [simp]: "Name (convertChartToApplicationDefinition catalog c) = GetAppName c"
  by (simp add: convertChartToApplicationDefinition_def Let_def)

lemma convert_not_system: "\<not> isSystemApplication (convertChartToApplicationDefinition catalog c)"
  by (simp add: convertChartToApplicationDefinition_def Let_def isSystemApplication_def
        LabelManagedByApplicationCatalog_def LabelApplicationCatalogName_def)

lemma convert_keys:
  "map Version (Versions (Spec (convertChartToApplicationDefinition catalog c)))
     = map cv_AppVersion (ChartVersions c)"
  by (simp add: convertChartToApplicationDefinition_def Let_def convertVersions_def
        convertVersion_def comp_def)

lemma system_modified:
  "\<not> isSystemApplication d \<Longrightarrow> isSystemApplication (modified e d) = isSystemApplication e"
  by (auto simp: isSystemApplication_def modified_def EnsureLabels_def map_add_def split: option.splits)

lemma settled_after_create:
  "versionsAscending c \<Longrightarrow>
     settled (convertChartToApplicationDefinition catalog c) (convertChartToApplicationDefinition catalog c)"
  unfolding settled_def using modified_same[of "convertChartToApplicationDefinition catalog c"]
  by (simp add: convert_keys versionsAscending_def)

lemma settled_after_update:
  "\<not> isSystemApplication d \<Longrightarrow> settled d (modified e d)"
  by (simp add: settled_def modified_idem)


lemma find_map_keep:
  assumes "\<And>a. Name (f a) = Name a" and "\<And>a. Name a = n \<Longrightarrow> f a = a"
  shows "find (\<lambda>a. Name a = n) (map f xs) = find (\<lambda>a. Name a = n) xs"
  using assms by (induction xs) auto

lemma map_replace_same:
  assumes "distinct (map Name xs)" and "find (\<lambda>x. Name x = n) xs = Some a"
  shows "map (\<lambda>x. if Name x = n then a else x) xs = xs"
proof -
  have a: "a \<in> set xs" "Name a = n" using assms(2) by (auto simp: find_Some_iff)
  have "\<And>x. x \<in> set xs \<Longrightarrow> Name x = n \<Longrightarrow> x = a"
    using assms(1) a by (metis distinct_map inj_onD)
  then show ?thesis by (simp add: map_idI)
qed

lemma applyChart_objects:
  "objects (applyChart catalog cl c) =
     (case Get (GetAppName c) cl of
        None \<Rightarrow> objects cl @ [convertChartToApplicationDefinition catalog c]
      | Some e \<Rightarrow>
          if isSystemApplication e then objects cl
          else map (\<lambda>a. if Name a = GetAppName c
                         then modified e (convertChartToApplicationDefinition catalog c) else a)
                 (objects cl))"
proof (cases "Get (GetAppName c) cl")
  case None
  then show ?thesis
    by (simp add: applyChart_def reconcileApplicationDefinition_def Create_def)
next
  case (Some e)
  then have "Name e = GetAppName c" by (rule Get_Some_Name)
  then show ?thesis using Some
    by (simp add: applyChart_def reconcileApplicationDefinition_def
          updateApplicationDefinition_def PatchObject_def)
qed

lemma reconcileApplicationDefinition_no_error:
  "fst (reconcileApplicationDefinition (convertChartToApplicationDefinition catalog c) cl) = None"
proof (cases "Get (GetAppName c) cl")
  case None
  then show ?thesis by (simp add: reconcileApplicationDefinition_def Create_def)
next
  case (Some e)
  then have "Name e = GetAppName c" by (rule Get_Some_Name)
  then show ?thesis using Some
    by (simp add: reconcileApplicationDefinition_def updateApplicationDefinition_def PatchObject_def)
qed

lemma applyChart_Get:
  "Get n (applyChart catalog cl c) =
     (if n = GetAppName c
      then Some (case Get (GetAppName c) cl of
                   None \<Rightarrow> convertChartToApplicationDefinition catalog c
                 | Some e \<Rightarrow> if isSystemApplication e then e
                             else modified e (convertChartToApplicationDefinition catalog c))
      else Get n cl)"
proof (cases "Get (GetAppName c) cl")
  case None
  then have "find (\<lambda>a. Name a = GetAppName c) (objects cl) = None" by (simp add: Get_def)
  then show ?thesis using None
    by (auto simp: Get_def applyChart_objects find_snoc split: option.splits)
next
  case (Some e)
  let ?m = "modified e (convertChartToApplicationDefinition catalog c)"
  have ne: "Name e = GetAppName c" using Some by (rule Get_Some_Name)
  show ?thesis
  proof (cases "isSystemApplication e")
    case True
    then show ?thesis using Some by (auto simp: Get_def applyChart_objects)
  next
    case False
    have f: "find (\<lambda>a. Name a = GetAppName c) (objects cl) = Some e" using Some by (simp add: Get_def)
    have 1: "find (\<lambda>a. Name a = GetAppName c)
               (map (\<lambda>a. if Name a = GetAppName c then ?m else a) (objects cl)) = Some ?m"
      using find_name_map_replace[OF f, of ?m] ne by simp
    have 2: "n \<noteq> GetAppName c \<Longrightarrow> find (\<lambda>a. Name a = n)
               (map (\<lambda>a. if Name a = GetAppName c then ?m else a) (objects cl))
             = find (\<lambda>a. Name a = n) (objects cl)"
      by (rule find_map_keep) (auto simp: ne)
    show ?thesis using Some False 1 2 by (auto simp: Get_def applyChart_objects)
  qed
qed

lemma applyChart_wf:
  assumes "wf_store (objects cl)"
  shows "wf_store (objects (applyChart catalog cl c))"
proof (cases "Get (GetAppName c) cl")
  case None
  then have "GetAppName c \<notin> Name ` set (objects cl)"
    by (auto simp: Get_def find_None_iff)
  then show ?thesis using assms None by (simp add: applyChart_objects wf_store_def)
next
  case (Some e)
  have ne: "Name e = GetAppName c" using Some by (rule Get_Some_Name)
  have "map Name (map (\<lambda>a. if Name a = GetAppName c
             then modified e (convertChartToApplicationDefinition catalog c) else a) (objects cl))
          = map Name (objects cl)"
    by (induction "objects cl") (auto simp: ne)
  then have "distinct (map Name (map (\<lambda>a. if Name a = GetAppName c
             then modified e (convertChartToApplicationDefinition catalog c) else a) (objects cl)))"
    using assms by (simp only: wf_store_def)
  then show ?thesis using assms Some
    by (simp only: applyChart_objects wf_store_def option.case split: if_split) simp
qed

lemma applyChart_settles:
  assumes "versionsAscending c"
  shows "\<exists>a. Get (GetAppName c) (applyChart catalog cl c) = Some a
             \<and> settled (convertChartToApplicationDefinition catalog c) a"
proof (cases "Get (GetAppName c) cl")
  case None
  then show ?thesis using settled_after_create[OF assms] by (simp add: applyChart_Get)
next
  case (Some e)
  then show ?thesis
    using settled_after_update[OF convert_not_system, of catalog c e]
    by (auto simp: applyChart_Get settled_def)
qed

lemma applyChart_quiet:
  assumes "wf_store (objects cl)" and "Get (GetAppName c) cl = Some a"
      and "settled (convertChartToApplicationDefinition catalog c) a"
  shows "\<exists>ws. applyChart catalog cl c = cl\<lparr>writes := writes cl @ ws\<rparr> \<and> filter effective ws = []"
proof (cases "isSystemApplication a")
  case True
  then have "applyChart catalog cl c = cl\<lparr>writes := writes cl @ []\<rparr>"
    using assms(2) by (simp add: applyChart_def reconcileApplicationDefinition_def)
  then show ?thesis by (metis filter.simps(1))
next
  case False
  then have m: "modified a (convertChartToApplicationDefinition catalog c) = a"
    using assms(3) by (simp add: settled_def)
  have ne: "Name a = GetAppName c" using assms(2) by (rule Get_Some_Name)
  have "map (\<lambda>x. if Name x = GetAppName c then a else x) (objects cl) = objects cl"
    using assms(1,2) by (intro map_replace_same) (auto simp: wf_store_def Get_def)
  then have "applyChart catalog cl c = cl\<lparr>writes := writes cl @ [Patched a a]\<rparr>"
    using assms(2) False m ne
    by (simp add: applyChart_def reconcileApplicationDefinition_def
          updateApplicationDefinition_def PatchObject_def)
  moreover have "filter effective [Patched a a] = []" by simp
  ultimately show ?thesis by blast
qed


lemma chartLoop_eq:
  "chartLoop catalog charts errs gen cl
     = (errs, gen @ map GetAppName charts, foldl (applyChart catalog) cl charts)"
proof (induction charts arbitrary: errs gen cl)
  case Nil
  then show ?case by simp
next
  case (Cons c charts)
  obtain e cl' where r: "reconcileApplicationDefinition (convertChartToApplicationDefinition catalog c) cl = (e, cl')"
    by (metis surj_pair)
  then have e: "e = None" using reconcileApplicationDefinition_no_error[of catalog c cl] by simp
  have a: "applyChart catalog cl c = cl'" using r by (simp add: applyChart_def)
  show ?case using r e a Cons.IH by (simp add: Let_def)
qed

lemma loop_wf:
  "wf_store (objects cl) \<Longrightarrow> wf_store (objects (foldl (applyChart catalog) cl charts))"
  by (induction charts arbitrary: cl) (auto simp: applyChart_wf)

lemma loop_frame:
  "n \<notin> GetAppName ` set charts \<Longrightarrow> Get n (foldl (applyChart catalog) cl charts) = Get n cl"
  by (induction charts arbitrary: cl) (auto simp: applyChart_Get)

lemma loop_settles:
  assumes "distinct (map GetAppName charts)" and "\<forall>c \<in> set charts. versionsAscending c"
  shows "\<forall>c \<in> set charts. \<exists>a. Get (GetAppName c) (foldl (applyChart catalog) cl charts) = Some a
             \<and> settled (convertChartToApplicationDefinition catalog c) a"
  using assms
proof (induction charts arbitrary: cl)
  case Nil
  then show ?case by simp
next
  case (Cons c charts)
  have n: "GetAppName c \<notin> GetAppName ` set charts" using Cons.prems(1) by auto
  have "Get (GetAppName c) (foldl (applyChart catalog) (applyChart catalog cl c) charts)
          = Get (GetAppName c) (applyChart catalog cl c)"
    using n by (rule loop_frame)
  moreover have "\<exists>a. Get (GetAppName c) (applyChart catalog cl c) = Some a
             \<and> settled (convertChartToApplicationDefinition catalog c) a"
    using Cons.prems(2) by (intro applyChart_settles) simp
  moreover have "\<forall>c' \<in> set charts. \<exists>a.
        Get (GetAppName c') (foldl (applyChart catalog) (applyChart catalog cl c) charts) = Some a
             \<and> settled (convertChartToApplicationDefinition catalog c') a"
    using Cons.IH[of "applyChart catalog cl c"] Cons.prems by simp
  ultimately show ?case by simp
qed

lemma loop_quiet:
  assumes "wf_store (objects cl)"
      and "\<forall>c \<in> set charts. \<exists>a. Get (GetAppName c) cl = Some a
             \<and> settled (convertChartToApplicationDefinition catalog c) a"
  shows "\<exists>ws. foldl (applyChart catalog) cl charts = cl\<lparr>writes := writes cl @ ws\<rparr>
             \<and> filter effective ws = []"
  using assms
proof (induction charts arbitrary: cl)
  case Nil
  have "cl = cl\<lparr>writes := writes cl @ []\<rparr>" by simp
  then show ?case by (metis filter.simps(1) foldl_Nil)
next
  case (Cons c charts)
  obtain a where a: "Get (GetAppName c) cl = Some a"
      "settled (convertChartToApplicationDefinition catalog c) a"
    using Cons.prems(2) by auto
  obtain ws where ws: "applyChart catalog cl c = cl\<lparr>writes := writes cl @ ws\<rparr>"
      "filter effective ws = []"
    using applyChart_quiet[OF Cons.prems(1) a] by blast
  let ?cl = "cl\<lparr>writes := writes cl @ ws\<rparr>"
  have w: "wf_store (objects ?cl)" using Cons.prems(1) by simp
  have g: "\<forall>c \<in> set charts. \<exists>a. Get (GetAppName c) ?cl = Some a
             \<and> settled (convertChartToApplicationDefinition catalog c) a"
    using Cons.prems(2) by (simp add: Get_def)
  obtain ws' where ws': "foldl (applyChart catalog) ?cl charts = ?cl\<lparr>writes := writes ?cl @ ws'\<rparr>"
      "filter effective ws' = []"
    using Cons.IH[OF w g] by blast
  have "foldl (applyChart catalog) cl (c # charts) = cl\<lparr>writes := writes cl @ (ws @ ws')\<rparr>"
    using ws(1) ws'(1) by simp
  moreover have "filter effective (ws @ ws') = []" using ws(2) ws'(2) by simp
  ultimately show ?case by blast
qed

lemma unmanage_keeps_generated:
  assumes "wf_store (objects cl)" and "n \<in> set gen"
  shows "Get n (snd (unmanageOrphans cat (Some gen) cl)) = Get n cl"
proof -
  have "find (\<lambda>a. Name a = n)
          (map (\<lambda>a. if Labels a LabelApplicationCatalogName = Some cat \<and> isOrphan (Some gen) a
                     then strippedLabels a else a) (objects cl))
        = find (\<lambda>a. Name a = n) (objects cl)"
    using assms(2) by (intro find_map_keep) (auto simp: isOrphan_def)
  then show ?thesis
    using unmanageOrphans_result[OF assms(1), of cat "Some gen"] by (simp add: Get_def)
qed

lemma unmanage_wf:
  assumes "wf_store (objects cl)"
  shows "wf_store (objects (snd (unmanageOrphans cat g cl)))"
proof -
  have "map Name (map (\<lambda>a. if Labels a LabelApplicationCatalogName = Some cat \<and> isOrphan g a
                     then strippedLabels a else a) (objects cl)) = map Name (objects cl)"
    by (induction "objects cl") auto
  then have "distinct (map Name (map (\<lambda>a. if Labels a LabelApplicationCatalogName = Some cat \<and> isOrphan g a
                     then strippedLabels a else a) (objects cl)))"
    using assms by (simp only: wf_store_def)
  then show ?thesis
    using unmanageOrphans_result[OF assms, of cat g] by (simp add: wf_store_def)
qed

lemma unmanage_leaves_no_orphan:
  assumes "wf_store (objects cl)"
  shows "\<forall>a \<in> set (objects (snd (unmanageOrphans cat g cl))).
           Labels a LabelApplicationCatalogName = Some cat \<longrightarrow> \<not> isOrphan g a"
proof -
  have s: "\<And>b. Labels (strippedLabels b) LabelApplicationCatalogName = None"
    by (simp add: strippedLabels_def)
  have o: "\<And>b. isOrphan g (strippedLabels b) = isOrphan g b"
    by (simp add: isOrphan_def split: option.splits)
  show ?thesis
    using unmanageOrphans_result[OF assms, of cat g] by (auto simp: s o)
qed

lemma unmanage_quiet:
  assumes "wf_store (objects cl)"
      and "\<forall>a \<in> set (objects cl). Labels a LabelApplicationCatalogName = Some cat \<longrightarrow> \<not> isOrphan g a"
  shows "unmanageOrphans cat g cl = (None, cl)"
proof -
  have 1: "map (\<lambda>a. if Labels a LabelApplicationCatalogName = Some cat \<and> isOrphan g a
                     then strippedLabels a else a) (objects cl) = objects cl"
    using assms(2) by (intro map_idI) auto
  have 2: "filter (isOrphan g) (ListByLabel LabelApplicationCatalogName cat cl) = []"
    using assms(2) by (auto simp: ListByLabel_def filter_empty_conv)
  show ?thesis using unmanageOrphans_result[OF assms(1), of cat g] by (simp add: 1 2)
qed


lemma reconcile_catalog:
  assumes "wf_store (objects cl)"
      and "\<not> (GetHelmCharts catalog = None \<and> Helm catalog \<noteq> None \<and> IncludeDefaults (the (Helm catalog)))"
  shows "reconcile (Inr catalog) reqName cl =
           (None, snd (unmanageOrphans (ac_Name catalog) (Some (identities catalog))
                         (foldl (applyChart catalog) cl (chartsOf catalog))))"
proof -
  let ?cl = "foldl (applyChart catalog) cl (chartsOf catalog)"
  have w: "wf_store (objects ?cl)" using assms(1) by (rule loop_wf)
  have l: "chartLoop catalog (chartsOf catalog) [] [] cl = ([], identities catalog, ?cl)"
    by (simp add: chartLoop_eq identities_def chartsOf_def)
  obtain cl2 where u: "unmanageOrphans (ac_Name catalog) (Some (identities catalog)) ?cl = (None, cl2)"
    using unmanageOrphans_result[OF w] by blast
  show ?thesis
  proof (cases "GetHelmCharts catalog")
    case None
    then have "chartLoop catalog [] [] [] cl = ([], identities catalog, ?cl)"
      using l by (simp add: chartsOf_def)
    then show ?thesis using assms(2) None u
      by (simp add: reconcile_def Let_def NewAggregate_def chartsOf_def identities_def)
  next
    case (Some cs)
    then have "chartLoop catalog cs [] [] cl = ([], identities catalog, ?cl)"
      using l by (simp add: chartsOf_def)
    then show ?thesis using Some u
      by (simp add: reconcile_def Let_def NewAggregate_def chartsOf_def)
  qed
qed

text \<open>
  Under these conditions the second run answers as the first did, leaves every resource
  as it is, and logs no create and no patch whose two objects differ.
\<close>

lemma second_run_quiet_for_ascending_versions:
  assumes "wf_store (objects cl)" and "distinct (identities catalog)"
      and "\<forall>c \<in> set (chartsOf catalog). versionsAscending c"
      and "\<forall>c \<in> set (chartsOf catalog). distinct (map cv_AppVersion (ChartVersions c))"
      and "\<forall>a \<in> set (objects cl). distinct (map Version (Versions (Spec a)))"
  shows "\<exists>err cl1 ws. reconcile (Inr catalog) reqName cl = (err, cl1)
           \<and> reconcile (Inr catalog) reqName cl1 = (err, cl1\<lparr>writes := writes cl1 @ ws\<rparr>)
           \<and> filter effective ws = []"
proof (cases "GetHelmCharts catalog = None \<and> Helm catalog \<noteq> None \<and> IncludeDefaults (the (Helm catalog))")
  case True
  then have "\<And>c. reconcile (Inr catalog) reqName c = (Some errRequeueAfter10Secs, c)"
    by (simp add: reconcile_def Let_def)
  moreover have "cl = cl\<lparr>writes := writes cl @ []\<rparr>" by simp
  ultimately show ?thesis by (metis filter.simps(1))
next
  case False
  let ?cs = "chartsOf catalog"
  let ?gen = "identities catalog"
  let ?cat = "ac_Name catalog"
  let ?clL = "foldl (applyChart catalog) cl ?cs"
  let ?cl1 = "snd (unmanageOrphans ?cat (Some ?gen) ?clL)"
  have gen: "?gen = map GetAppName ?cs" by (simp add: identities_def chartsOf_def)
  have wL: "wf_store (objects ?clL)" using assms(1) by (rule loop_wf)
  have w1: "wf_store (objects ?cl1)" using wL by (rule unmanage_wf)
  have r1: "reconcile (Inr catalog) reqName cl = (None, ?cl1)"
    using reconcile_catalog[OF assms(1) False] .
  have sL: "\<forall>c \<in> set ?cs. \<exists>a. Get (GetAppName c) ?clL = Some a
             \<and> settled (convertChartToApplicationDefinition catalog c) a"
    using assms(2,3) gen by (intro loop_settles) auto
  have s1: "\<forall>c \<in> set ?cs. \<exists>a. Get (GetAppName c) ?cl1 = Some a
             \<and> settled (convertChartToApplicationDefinition catalog c) a"
  proof
    fix c assume c: "c \<in> set ?cs"
    then have "GetAppName c \<in> set ?gen" using gen by simp
    then have "Get (GetAppName c) ?cl1 = Get (GetAppName c) ?clL"
      using unmanage_keeps_generated[OF wL] by blast
    then show "\<exists>a. Get (GetAppName c) ?cl1 = Some a
             \<and> settled (convertChartToApplicationDefinition catalog c) a"
      using sL c by simp
  qed
  obtain ws where ws: "foldl (applyChart catalog) ?cl1 ?cs = ?cl1\<lparr>writes := writes ?cl1 @ ws\<rparr>"
      "filter effective ws = []"
    using loop_quiet[OF w1 s1] by blast
  let ?cl2 = "?cl1\<lparr>writes := writes ?cl1 @ ws\<rparr>"
  have w2: "wf_store (objects ?cl2)" using w1 by simp
  have no: "\<forall>a \<in> set (objects ?cl2).
           Labels a LabelApplicationCatalogName = Some ?cat \<longrightarrow> \<not> isOrphan (Some ?gen) a"
    using unmanage_leaves_no_orphan[OF wL, of ?cat "Some ?gen"] by simp
  have u2: "unmanageOrphans ?cat (Some ?gen) ?cl2 = (None, ?cl2)"
    using unmanage_quiet[OF w2 no] .
  have "reconcile (Inr catalog) reqName ?cl1 = (None, snd (unmanageOrphans ?cat (Some ?gen)
                         (foldl (applyChart catalog) ?cl1 ?cs)))"
    using reconcile_catalog[OF w1 False] .
  then have r2: "reconcile (Inr catalog) reqName ?cl1 = (None, ?cl2)"
    using ws(1) u2 by simp
  show ?thesis using r1 r2 ws(2) by blast
qed

end
